theory Spec2Isabelle
  imports Main
begin

section \<open>The striped hash map of \<^verbatim>\<open>include/concurrent_hashmap.hpp\<close>\<close>

text \<open>
  The class template \<^verbatim>\<open>ConcurrentHashMap<Key, Value, NumBuckets>\<close> owns a
  \<^verbatim>\<open>std::array<Bucket, NumBuckets>\<close>; a \<^verbatim>\<open>Bucket\<close> is a
  \<^verbatim>\<open>std::shared_mutex\<close> and a \<^verbatim>\<open>std::list<std::pair<Key, Value>>\<close>. The
  embedding below describes one thread running one member function to completion: every
  member function takes the map and returns its result together with the map it leaves
  behind.

  Two tokens of the header are not C++ as they stand. Line 21 declares the parameter of
  \<^verbatim>\<open>getBucketIndex\<close> as \<^verbatim>\<open>cont Key&\<close>; the qualifier has no part in the
  value the function computes, and the embedding reads \<^verbatim>\<open>const Key&\<close>. Line 62,
  the last statement of \<^verbatim>\<open>put\<close>, appends through \<^verbatim>\<open>bucket.item\<close>,
  although the only members of \<^verbatim>\<open>Bucket\<close> are \<^verbatim>\<open>mutex\<close> and
  \<^verbatim>\<open>items\<close>. The embedding has both member functions: \<open>put_as_written\<close>,
  in which that statement appends nothing, and \<open>put\<close>, in which it is repaired to
  \<^verbatim>\<open>bucket.items.emplace_back(key, value)\<close>, what the overwrite branch three
  lines above it and the callers in \<^verbatim>\<open>test.cpp\<close> and
  \<^verbatim>\<open>src/benchmark.cpp\<close> expect. The sequential client below calls the repaired
  \<open>put\<close>.
\<close>

subsection \<open>The reader-writer lock\<close>

text \<open>
  \<^verbatim>\<open>std::shared_mutex\<close> belongs to the standard library. Its state is who holds it:
  one exclusive owner, or some number of shared owners. Acquiring it in a mode that the
  current holders exclude blocks the caller; with no other thread to release the lock,
  a blocked call never returns, which is the result \<open>None\<close> here.
\<close>

record shared_mutex =
  writer :: bool
  readers :: nat

definition free_mutex :: shared_mutex where
  "free_mutex = \<lparr>writer = False, readers = 0\<rparr>"

definition lock_shared :: "shared_mutex \<Rightarrow> shared_mutex option" where
  "lock_shared mu = (if writer mu then None else Some (mu\<lparr>readers := readers mu + 1\<rparr>))"

definition unlock_shared :: "shared_mutex \<Rightarrow> shared_mutex" where
  "unlock_shared mu = mu\<lparr>readers := readers mu - 1\<rparr>"

definition lock :: "shared_mutex \<Rightarrow> shared_mutex option" where
  "lock mu = (if writer mu \<or> 0 < readers mu then None else Some (mu\<lparr>writer := True\<rparr>))"

definition unlock :: "shared_mutex \<Rightarrow> shared_mutex" where
  "unlock mu = mu\<lparr>writer := False\<rparr>"

subsection \<open>Data\<close>

record ('k, 'v) Bucket =
  mutex :: shared_mutex
  items :: "('k \<times> 'v) list"

record ('k, 'v) ConcurrentHashMap =
  buckets :: "('k, 'v) Bucket list"

text \<open>
  The array has exactly \<^verbatim>\<open>NumBuckets\<close> cells for the whole life of the map, so the
  template parameter is the length of \<open>buckets\<close> (the member \<^verbatim>\<open>buckets_\<close>).
\<close>

definition NumBuckets :: "('k, 'v) ConcurrentHashMap \<Rightarrow> nat" where
  "NumBuckets m = length (buckets m)"

text \<open>
  The defaulted constructor default-constructs every bucket of the array: its lock
  free, its chain empty.
\<close>

definition init :: "nat \<Rightarrow> ('k, 'v) ConcurrentHashMap" where
  "init n = \<lparr>buckets = replicate n \<lparr>mutex = free_mutex, items = []\<rparr>\<rparr>"

text \<open>
  What keeps a call from returning a result: a lock it cannot get, the remainder by
  zero that \<^verbatim>\<open>getBucketIndex\<close> computes when the map is instantiated with no bucket
  at all, or, in \<^verbatim>\<open>put\<close> as written, the member access of line 62 that names no
  member of \<^verbatim>\<open>Bucket\<close>.
\<close>

datatype fault = WouldBlock | ModuloByZero | NoSuchMember

subsection \<open>Member functions\<close>

text \<open>
  \<^verbatim>\<open>std::hash<Key>\<close> is a parameter \<open>hash\<close> of every function that needs it; its
  \<^verbatim>\<open>size_t\<close> result is read as a natural number.
\<close>

definition getBucketIndex :: "('k \<Rightarrow> nat) \<Rightarrow> ('k, 'v) ConcurrentHashMap \<Rightarrow> 'k \<Rightarrow> fault + nat" where
  "getBucketIndex hash m key =
     (if NumBuckets m = 0 then Inl ModuloByZero else Inr (hash key mod NumBuckets m))"

text \<open>The range-for of \<^verbatim>\<open>get\<close>: the value of the first entry whose key matches.\<close>

fun get_loop :: "'k \<Rightarrow> ('k \<times> 'v) list \<Rightarrow> 'v option" where
  "get_loop key [] = None"
| "get_loop key ((k, v) # rest) = (if k = key then Some v else get_loop key rest)"

definition get ::
  "('k \<Rightarrow> nat) \<Rightarrow> 'k \<Rightarrow> ('k, 'v) ConcurrentHashMap \<Rightarrow> fault + ('v option \<times> ('k, 'v) ConcurrentHashMap)" where
  "get hash key m =
     (case getBucketIndex hash m key of
        Inl e \<Rightarrow> Inl e
      | Inr i \<Rightarrow>
          let bucket = buckets m ! i in
          (case lock_shared (mutex bucket) of
             None \<Rightarrow> Inl WouldBlock
           | Some held \<Rightarrow>
               let result = get_loop key (items bucket) in
               Inr (result, m\<lparr>buckets := (buckets m)[i := bucket\<lparr>mutex := unlock_shared held\<rparr>]\<rparr>)))"

text \<open>
  The range-for of \<^verbatim>\<open>put\<close>: \<open>Some\<close> of the chain with the first matching entry
  overwritten when the loop returns from inside, \<open>None\<close> when it runs off the end.
\<close>

fun put_loop :: "'k \<Rightarrow> 'v \<Rightarrow> ('k \<times> 'v) list \<Rightarrow> ('k \<times> 'v) list option" where
  "put_loop key val [] = None"
| "put_loop key val ((k, v) # rest) =
     (if k = key then Some ((k, val) # rest)
      else map_option ((#) (k, v)) (put_loop key val rest))"

text \<open>
  \<^verbatim>\<open>put\<close> as the header has it. When the loop runs off the end, line 62 reads
  \<^verbatim>\<open>bucket.item.emplace_back(key, value)\<close>: there is no \<^verbatim>\<open>item\<close> to append
  to, a compiler refuses the statement as soon as \<^verbatim>\<open>put\<close> is instantiated, and
  no call that gets this far leaves a map with the entry appended.
\<close>

definition put_as_written ::
  "('k \<Rightarrow> nat) \<Rightarrow> 'k \<Rightarrow> 'v \<Rightarrow> ('k, 'v) ConcurrentHashMap \<Rightarrow> fault + ('k, 'v) ConcurrentHashMap" where
  "put_as_written hash key val m =
     (case getBucketIndex hash m key of
        Inl e \<Rightarrow> Inl e
      | Inr i \<Rightarrow>
          let bucket = buckets m ! i in
          (case lock (mutex bucket) of
             None \<Rightarrow> Inl WouldBlock
           | Some held \<Rightarrow>
               (case put_loop key val (items bucket) of
                  Some overwritten \<Rightarrow>
                    Inr (m\<lparr>buckets := (buckets m)[i := \<lparr>mutex = unlock held, items = overwritten\<rparr>]\<rparr>)
                | None \<Rightarrow> Inl NoSuchMember)))"

text \<open>
  \<^verbatim>\<open>put\<close> with line 62 repaired to \<^verbatim>\<open>bucket.items.emplace_back(key, value)\<close>.
\<close>

definition put ::
  "('k \<Rightarrow> nat) \<Rightarrow> 'k \<Rightarrow> 'v \<Rightarrow> ('k, 'v) ConcurrentHashMap \<Rightarrow> fault + ('k, 'v) ConcurrentHashMap" where
  "put hash key val m =
     (case getBucketIndex hash m key of
        Inl e \<Rightarrow> Inl e
      | Inr i \<Rightarrow>
          let bucket = buckets m ! i in
          (case lock (mutex bucket) of
             None \<Rightarrow> Inl WouldBlock
           | Some held \<Rightarrow>
               let items' = (case put_loop key val (items bucket) of
                               Some overwritten \<Rightarrow> overwritten
                             | None \<Rightarrow> items bucket @ [(key, val)]) in
               Inr (m\<lparr>buckets := (buckets m)[i := \<lparr>mutex = unlock held, items = items'\<rparr>]\<rparr>)))"

text \<open>
  \<^verbatim>\<open>std::find_if\<close> as the position of the first element satisfying the predicate,
  the length of the list standing for \<^verbatim>\<open>end()\<close>; \<^verbatim>\<open>erase\<close> drops the element
  at a position.
\<close>

fun find_if :: "('a \<Rightarrow> bool) \<Rightarrow> 'a list \<Rightarrow> nat" where
  "find_if p [] = 0"
| "find_if p (x # xs) = (if p x then 0 else Suc (find_if p xs))"

definition erase :: "nat \<Rightarrow> 'a list \<Rightarrow> 'a list" where
  "erase it xs = take it xs @ drop (Suc it) xs"

definition remove ::
  "('k \<Rightarrow> nat) \<Rightarrow> 'k \<Rightarrow> ('k, 'v) ConcurrentHashMap \<Rightarrow> fault + (bool \<times> ('k, 'v) ConcurrentHashMap)" where
  "remove hash key m =
     (case getBucketIndex hash m key of
        Inl e \<Rightarrow> Inl e
      | Inr i \<Rightarrow>
          let bucket = buckets m ! i in
          (case lock (mutex bucket) of
             None \<Rightarrow> Inl WouldBlock
           | Some held \<Rightarrow>
               let it = find_if (\<lambda>pair. fst pair = key) (items bucket) in
               if it \<noteq> length (items bucket)
               then Inr (True, m\<lparr>buckets := (buckets m)[i := \<lparr>mutex = unlock held, items = erase it (items bucket)\<rparr>]\<rparr>)
               else Inr (False, m\<lparr>buckets := (buckets m)[i := bucket\<lparr>mutex := unlock held\<rparr>]\<rparr>)))"

definition has_value :: "'a option \<Rightarrow> bool" where
  "has_value r = (case r of None \<Rightarrow> False | Some _ \<Rightarrow> True)"

definition contains ::
  "('k \<Rightarrow> nat) \<Rightarrow> 'k \<Rightarrow> ('k, 'v) ConcurrentHashMap \<Rightarrow> fault + (bool \<times> ('k, 'v) ConcurrentHashMap)" where
  "contains hash key m =
     (case get hash key m of
        Inl e \<Rightarrow> Inl e
      | Inr (r, m') \<Rightarrow> Inr (has_value r, m'))"

text \<open>
  The loop of \<^verbatim>\<open>size\<close> over the array: each bucket is locked in shared mode, its
  chain length is added to the running total \<open>tot\<close>, and the lock is dropped before the next
  bucket is visited. The \<^verbatim>\<open>size_t\<close> total is a natural number: it counts list
  nodes that exist in memory, so it cannot wrap.
\<close>

fun size_loop :: "('k, 'v) Bucket list \<Rightarrow> nat \<Rightarrow> fault + (nat \<times> ('k, 'v) Bucket list)" where
  "size_loop [] tot = Inr (tot, [])"
| "size_loop (bucket # rest) tot =
     (case lock_shared (mutex bucket) of
        None \<Rightarrow> Inl WouldBlock
      | Some held \<Rightarrow>
          (case size_loop rest (tot + length (items bucket)) of
             Inl e \<Rightarrow> Inl e
           | Inr (n, rest') \<Rightarrow> Inr (n, bucket\<lparr>mutex := unlock_shared held\<rparr> # rest')))"

definition size_map :: "('k, 'v) ConcurrentHashMap \<Rightarrow> fault + (nat \<times> ('k, 'v) ConcurrentHashMap)" where
  "size_map m =
     (case size_loop (buckets m) 0 of
        Inl e \<Rightarrow> Inl e
      | Inr (n, bs) \<Rightarrow> Inr (n, m\<lparr>buckets := bs\<rparr>))"

text \<open>The loop of \<^verbatim>\<open>clear\<close>: each bucket is locked exclusively and its chain emptied.\<close>

fun clear_loop :: "('k, 'v) Bucket list \<Rightarrow> fault + ('k, 'v) Bucket list" where
  "clear_loop [] = Inr []"
| "clear_loop (bucket # rest) =
     (case lock (mutex bucket) of
        None \<Rightarrow> Inl WouldBlock
      | Some held \<Rightarrow>
          (case clear_loop rest of
             Inl e \<Rightarrow> Inl e
           | Inr rest' \<Rightarrow> Inr (\<lparr>mutex = unlock held, items = []\<rparr> # rest')))"

definition clear :: "('k, 'v) ConcurrentHashMap \<Rightarrow> fault + ('k, 'v) ConcurrentHashMap" where
  "clear m =
     (case clear_loop (buckets m) of
        Inl e \<Rightarrow> Inl e
      | Inr bs \<Rightarrow> Inr (m\<lparr>buckets := bs\<rparr>))"

subsection \<open>A sequential client\<close>

text \<open>
  \<^verbatim>\<open>test.cpp\<close> and the first half of \<^verbatim>\<open>testCorrectness\<close> in
  \<^verbatim>\<open>src/benchmark.cpp\<close> drive one map from one thread, one call after the
  other. A \<open>call\<close> names a member function with its arguments, \<open>step\<close> makes the
  call and keeps the map, \<open>run\<close> makes the calls of a list in order and stops at the
  first one that does not return. Its \<open>Put\<close> is the repaired \<open>put\<close>.
\<close>

datatype ('k, 'v) call = Get 'k | Put 'k 'v | Remove 'k | Contains 'k | Size | Clear

fun step :: "('k \<Rightarrow> nat) \<Rightarrow> ('k, 'v) call \<Rightarrow> ('k, 'v) ConcurrentHashMap \<Rightarrow> fault + ('k, 'v) ConcurrentHashMap" where
  "step hash (Get key) m = map_sum id snd (get hash key m)"
| "step hash (Put key val) m = put hash key val m"
| "step hash (Remove key) m = map_sum id snd (remove hash key m)"
| "step hash (Contains key) m = map_sum id snd (contains hash key m)"
| "step hash Size m = map_sum id snd (size_map m)"
| "step hash Clear m = clear m"

fun run :: "('k \<Rightarrow> nat) \<Rightarrow> ('k, 'v) call list \<Rightarrow> ('k, 'v) ConcurrentHashMap \<Rightarrow> fault + ('k, 'v) ConcurrentHashMap" where
  "run hash [] m = Inr m"
| "run hash (c # cs) m = (case step hash c m of Inl e \<Rightarrow> Inl e | Inr m' \<Rightarrow> run hash cs m')"

subsection \<open>Predicates on maps\<close>

text \<open>No thread holds any lock of the map.\<close>

definition quiescent :: "('k, 'v) ConcurrentHashMap \<Rightarrow> bool" where
  "quiescent m = (\<forall>b \<in> set (buckets m). mutex b = free_mutex)"

text \<open>The keys of all entries of the map, bucket after bucket, in chain order.\<close>

definition all_keys :: "('k, 'v) ConcurrentHashMap \<Rightarrow> 'k list" where
  "all_keys m = concat (map (\<lambda>b. map fst (items b)) (buckets m))"

text \<open>Every entry sits in the bucket that \<open>getBucketIndex\<close> computes for its key.\<close>

definition homed :: "('k \<Rightarrow> nat) \<Rightarrow> ('k, 'v) ConcurrentHashMap \<Rightarrow> bool" where
  "homed hash m =
     (\<forall>(i, b) \<in> set (zip [0..<NumBuckets m] (buckets m)).
        \<forall>k \<in> set (map fst (items b)). hash k mod NumBuckets m = i)"

text \<open>The chain that a key hashes to.\<close>

definition chain :: "('k \<Rightarrow> nat) \<Rightarrow> 'k \<Rightarrow> ('k, 'v) ConcurrentHashMap \<Rightarrow> ('k \<times> 'v) list" where
  "chain hash key m = items (buckets m ! (hash key mod NumBuckets m))"

text \<open>The sum of the chain lengths of all buckets.\<close>

definition entries :: "('k, 'v) ConcurrentHashMap \<Rightarrow> nat" where
  "entries m = sum_list (map (\<lambda>b. length (items b)) (buckets m))"

text \<open>Every chain holds each key at most once.\<close>

definition chains_distinct :: "('k, 'v) ConcurrentHashMap \<Rightarrow> bool" where
  "chains_distinct m = (\<forall>b \<in> set (buckets m). distinct (map fst (items b)))"

text \<open>
  Upsert as the specification words it: the value of the entry with the key is
  overwritten where it stands, and a key that the chain does not hold is appended.
\<close>

definition upsert :: "'k \<Rightarrow> 'v \<Rightarrow> ('k \<times> 'v) list \<Rightarrow> ('k \<times> 'v) list" where
  "upsert key val xs =
     (if key \<in> fst ` set xs then xs[find_if (\<lambda>pair. fst pair = key) xs := (key, val)]
      else xs @ [(key, val)])"

subsection \<open>An example map\<close>

text \<open>
  Two buckets, natural numbers as keys hashed by the identity: the map that
  \<^verbatim>\<open>put(1, "A")\<close>, \<^verbatim>\<open>put(2, "B")\<close> and \<^verbatim>\<open>put(4, "D")\<close> leave behind on a
  freshly constructed one.
\<close>

definition example :: "(nat, string) ConcurrentHashMap" where
  "example = \<lparr>buckets = [\<lparr>mutex = free_mutex, items = [(2, ''B''), (4, ''D'')]\<rparr>,
                         \<lparr>mutex = free_mutex, items = [(1, ''A'')]\<rparr>]\<rparr>"

section \<open>Properties of the member functions\<close>

subsection \<open>The lock\<close>

lemma lock_free: "lock free_mutex = Some (free_mutex\<lparr>writer := True\<rparr>)"
  by (simp add: lock_def free_mutex_def)

lemma unlock_lock_free: "unlock (free_mutex\<lparr>writer := True\<rparr>) = free_mutex"
  by (simp add: unlock_def free_mutex_def)

lemma lock_Some_iff: "lock mu = Some held \<longleftrightarrow> mu = free_mutex \<and> held = free_mutex\<lparr>writer := True\<rparr>"
  by (auto simp: lock_def free_mutex_def)

lemma lock_shared_unlock: "lock_shared mu = Some held \<Longrightarrow> unlock_shared held = mu"
  by (auto simp: lock_shared_def unlock_shared_def split: if_splits)

lemma lock_shared_Some_iff: "(\<exists>held. lock_shared mu = Some held) \<longleftrightarrow> \<not> writer mu"
  by (auto simp: lock_shared_def)

subsection \<open>The loops over a chain\<close>

lemma get_loop_None_iff: "get_loop key xs = None \<longleftrightarrow> key \<notin> fst ` set xs"
  by (induction xs) (force split: if_splits)+

lemma find_if_le: "find_if p xs \<le> length xs"
  by (induction xs) auto

lemma find_if_end_iff: "find_if p xs = length xs \<longleftrightarrow> (\<forall>x \<in> set xs. \<not> p x)"
  by (induction xs) auto

lemma find_if_hit: "find_if p xs < length xs \<Longrightarrow> p (xs ! find_if p xs)"
  by (induction xs) auto

lemma put_loop_None_iff: "put_loop key val xs = None \<longleftrightarrow> key \<notin> fst ` set xs"
  by (induction xs) (force split: if_splits)+

lemma put_loop_Some: "key \<in> fst ` set xs \<Longrightarrow>
   put_loop key val xs = Some (xs[find_if (\<lambda>pair. fst pair = key) xs := (key, val)])"
  by (induction xs) (force split: if_splits)+

lemma get_loop_update_same: "key \<in> fst ` set xs \<Longrightarrow>
   get_loop key (xs[find_if (\<lambda>pair. fst pair = key) xs := (key, val)]) = Some val"
  by (induction xs) (force split: if_splits)+

lemma get_loop_update_other: "key' \<noteq> key \<Longrightarrow>
   get_loop key' (xs[find_if (\<lambda>pair. fst pair = key) xs := (key, val)]) = get_loop key' xs"
  by (induction xs) auto

lemma map_fst_update: "key \<in> fst ` set xs \<Longrightarrow>
   map fst (xs[find_if (\<lambda>pair. fst pair = key) xs := (key, val)]) = map fst xs"
  by (induction xs) auto

lemma get_loop_append: "get_loop key (xs @ ys) = (case get_loop key xs of Some v \<Rightarrow> Some v | None \<Rightarrow> get_loop key ys)"
  by (induction xs) auto

lemma erase_find_if_keys:
  "set (map fst (erase (find_if (\<lambda>pair. fst pair = key) xs) xs)) \<subseteq> set (map fst xs)"
  by (induction xs) (auto simp: erase_def)

lemma erase_Cons_Suc: "erase (Suc n) (x # xs) = x # erase n xs"
  by (simp add: erase_def)

lemma erase_Cons_0: "erase 0 (x # xs) = xs"
  by (simp add: erase_def)

lemma distinct_erase_find_if:
  "distinct (map fst xs) \<Longrightarrow> distinct (map fst (erase (find_if (\<lambda>pair. fst pair = key) xs) xs))"
proof (induction xs)
  case Nil
  then show ?case by (simp add: erase_def)
next
  case (Cons x xs)
  show ?case
  proof (cases "fst x = key")
    case True
    with Cons.prems show ?thesis by (simp add: erase_Cons_0)
  next
    case False
    have "set (map fst (erase (find_if (\<lambda>pair. fst pair = key) xs) xs)) \<subseteq> set (map fst xs)"
      by (rule erase_find_if_keys)
    with Cons False show ?thesis by (auto simp: erase_Cons_Suc)
  qed
qed

lemma erase_find_if_absent:
  "distinct (map fst xs) \<Longrightarrow> key \<notin> fst ` set (erase (find_if (\<lambda>pair. fst pair = key) xs) xs)"
proof (induction xs)
  case Nil
  then show ?case by (simp add: erase_def)
next
  case (Cons x xs)
  then show ?case by (auto simp: erase_Cons_0 erase_Cons_Suc rev_image_eqI)
qed

lemma get_loop_erase_other: "key' \<noteq> key \<Longrightarrow>
   get_loop key' (erase (find_if (\<lambda>pair. fst pair = key) xs) xs) = get_loop key' xs"
  by (induction xs) (auto simp: erase_Cons_0 erase_Cons_Suc, simp add: erase_def)

lemma length_erase: "it < length xs \<Longrightarrow> length (erase it xs) = length xs - 1"
  by (auto simp: erase_def)

text \<open>The loop of \<^verbatim>\<open>put\<close> and the append after it implement upsert.\<close>

lemma put_loop_upsert:
  "(case put_loop key val xs of Some overwritten \<Rightarrow> overwritten | None \<Rightarrow> xs @ [(key, val)]) = upsert key val xs"
proof (cases "key \<in> fst ` set xs")
  case True
  then show ?thesis by (simp add: put_loop_Some upsert_def)
next
  case False
  then have "put_loop key val xs = None" by (simp add: put_loop_None_iff)
  with False show ?thesis by (simp add: upsert_def)
qed

lemma erase_end: "erase (length xs) xs = xs"
  by (simp add: erase_def)

subsection \<open>What each member function returns\<close>

text \<open>
  With the lock of the bucket available, a member function returns, and its result and
  the map it leaves have a closed form. Conversely a call that returns found the lock
  available and at least one bucket.
\<close>

lemma get_closed:
  assumes "0 < NumBuckets m" and "\<not> writer (mutex (buckets m ! (hash key mod NumBuckets m)))"
  shows "get hash key m = Inr (get_loop key (chain hash key m), m)"
proof -
  let ?i = "hash key mod NumBuckets m"
  obtain held where h: "lock_shared (mutex (buckets m ! ?i)) = Some held"
    using assms(2) lock_shared_Some_iff by blast
  have "(buckets m ! ?i)\<lparr>mutex := unlock_shared held\<rparr> = buckets m ! ?i"
    using lock_shared_unlock[OF h] by simp
  then show ?thesis
    using assms(1) h by (simp add: get_def getBucketIndex_def chain_def Let_def)
qed

lemma get_Inr:
  assumes "get hash key m = Inr (r, m')"
  shows "m' = m \<and> r = get_loop key (chain hash key m) \<and> 0 < NumBuckets m"
proof -
  have n: "0 < NumBuckets m"
    using assms by (auto simp: get_def getBucketIndex_def split: if_splits)
  have w: "\<not> writer (mutex (buckets m ! (hash key mod NumBuckets m)))"
    using assms n by (auto simp: get_def getBucketIndex_def Let_def lock_shared_def split: if_splits option.splits)
  have "get hash key m = Inr (get_loop key (chain hash key m), m)"
    using n w by (rule get_closed)
  with assms n show ?thesis by auto
qed

lemma get_Inr_state: "get hash key m = Inr (r, m') \<Longrightarrow> m' = m"
  using get_Inr by (rule conjunct1)

lemma get_Inr_result: "get hash key m = Inr (r, m') \<Longrightarrow> r = get_loop key (chain hash key m)"
  using get_Inr[THEN conjunct2] by (rule conjunct1)

lemma put_closed:
  assumes "0 < NumBuckets m" and "mutex (buckets m ! (hash key mod NumBuckets m)) = free_mutex"
  shows "put hash key val m =
    Inr (m\<lparr>buckets := (buckets m)[hash key mod NumBuckets m :=
           \<lparr>mutex = free_mutex, items = upsert key val (chain hash key m)\<rparr>]\<rparr>)"
  using assms
  by (simp add: put_def getBucketIndex_def Let_def lock_free unlock_lock_free put_loop_upsert chain_def)

lemma put_Inr:
  assumes "put hash key val m = Inr m'"
  shows "0 < NumBuckets m \<and> mutex (buckets m ! (hash key mod NumBuckets m)) = free_mutex"
  using assms
  by (auto simp: put_def getBucketIndex_def Let_def lock_Some_iff split: if_splits option.splits)

lemma remove_closed:
  assumes "0 < NumBuckets m" and "mutex (buckets m ! (hash key mod NumBuckets m)) = free_mutex"
  shows "remove hash key m =
    Inr (key \<in> fst ` set (chain hash key m),
         m\<lparr>buckets := (buckets m)[hash key mod NumBuckets m :=
           \<lparr>mutex = free_mutex,
            items = erase (find_if (\<lambda>pair. fst pair = key) (chain hash key m)) (chain hash key m)\<rparr>]\<rparr>)"
proof -
  let ?i = "hash key mod NumBuckets m"
  let ?xs = "items (buckets m ! ?i)"
  have b: "(buckets m ! ?i)\<lparr>mutex := free_mutex\<rparr> = \<lparr>mutex = free_mutex, items = ?xs\<rparr>"
    by simp
  show ?thesis
  proof (cases "find_if (\<lambda>pair. fst pair = key) ?xs = length ?xs")
    case True
    then have "key \<notin> fst ` set ?xs" by (auto simp: find_if_end_iff)
    with True assms show ?thesis
      by (simp add: remove_def getBucketIndex_def Let_def lock_free unlock_lock_free chain_def erase_end b)
  next
    case False
    then have "key \<in> fst ` set ?xs" by (auto simp: find_if_end_iff)
    with False assms show ?thesis
      by (simp add: remove_def getBucketIndex_def Let_def lock_free unlock_lock_free chain_def)
  qed
qed

lemma remove_Inr:
  assumes "remove hash key m = Inr (r, m')"
  shows "0 < NumBuckets m \<and> mutex (buckets m ! (hash key mod NumBuckets m)) = free_mutex"
  using assms
  by (auto simp: remove_def getBucketIndex_def Let_def lock_Some_iff split: if_splits option.splits)

lemma size_loop_closed:
  "\<forall>b \<in> set bs. \<not> writer (mutex b) \<Longrightarrow>
   size_loop bs tot = Inr (tot + sum_list (map (\<lambda>b. length (items b)) bs), bs)"
proof (induction bs arbitrary: tot)
  case Nil
  then show ?case by simp
next
  case (Cons b bs)
  then obtain held where h: "lock_shared (mutex b) = Some held"
    using lock_shared_Some_iff[of "mutex b"] by auto
  have "b\<lparr>mutex := unlock_shared held\<rparr> = b"
    using lock_shared_unlock[OF h] by simp
  with Cons h show ?case by simp
qed

lemma size_loop_Inr:
  "size_loop bs tot = Inr (n, bs') \<Longrightarrow> \<forall>b \<in> set bs. \<not> writer (mutex b)"
proof (induction bs arbitrary: tot n bs')
  case Nil
  then show ?case by simp
next
  case (Cons b bs)
  then show ?case
    by (auto simp: lock_shared_def split: option.splits sum.splits if_splits)
qed

lemma size_closed:
  "\<forall>b \<in> set (buckets m). \<not> writer (mutex b) \<Longrightarrow> size_map m = Inr (entries m, m)"
  by (simp add: size_map_def size_loop_closed entries_def)

lemma size_Inr:
  assumes "size_map m = Inr (n, m')"
  shows "m' = m \<and> n = entries m"
proof -
  obtain bs where "size_loop (buckets m) 0 = Inr (n, bs)"
    using assms by (auto simp: size_map_def split: sum.splits)
  then have "\<forall>b \<in> set (buckets m). \<not> writer (mutex b)" by (rule size_loop_Inr)
  from size_closed[OF this] assms show ?thesis by simp
qed

lemma size_Inr_state: "size_map m = Inr (n, m') \<Longrightarrow> m' = m"
  using size_Inr by (rule conjunct1)

lemma clear_loop_closed:
  "\<forall>b \<in> set bs. mutex b = free_mutex \<Longrightarrow>
   clear_loop bs = Inr (replicate (length bs) \<lparr>mutex = free_mutex, items = []\<rparr>)"
  by (induction bs) (simp_all add: lock_free unlock_lock_free)

lemma clear_loop_Inr:
  "clear_loop bs = Inr bs' \<Longrightarrow> \<forall>b \<in> set bs. mutex b = free_mutex"
proof (induction bs arbitrary: bs')
  case Nil
  then show ?case by simp
next
  case (Cons b bs)
  then show ?case by (auto simp: lock_Some_iff split: option.splits sum.splits)
qed

lemma clear_closed: "quiescent m \<Longrightarrow> clear m = Inr (init (NumBuckets m))"
  by (simp add: clear_def quiescent_def clear_loop_closed init_def NumBuckets_def)

lemma quiescent_free: "quiescent m \<Longrightarrow> i < NumBuckets m \<Longrightarrow> mutex (buckets m ! i) = free_mutex"
  by (simp add: quiescent_def NumBuckets_def)

lemma quiescent_readable: "quiescent m \<Longrightarrow> \<forall>b \<in> set (buckets m). \<not> writer (mutex b)"
  by (simp add: quiescent_def free_mutex_def)

subsection \<open>Replacing one bucket\<close>

lemma homed_iff:
  "homed hash m \<longleftrightarrow>
   (\<forall>i < NumBuckets m. \<forall>k \<in> fst ` set (items (buckets m ! i)). hash k mod NumBuckets m = i)"
proof
  assume h: "homed hash m"
  show "\<forall>i < NumBuckets m. \<forall>k \<in> fst ` set (items (buckets m ! i)). hash k mod NumBuckets m = i"
  proof (intro allI impI)
    fix i assume i: "i < NumBuckets m"
    then have "(i, buckets m ! i) \<in> set (zip [0..<NumBuckets m] (buckets m))"
      by (force simp: in_set_zip NumBuckets_def)
    with h show "\<forall>k \<in> fst ` set (items (buckets m ! i)). hash k mod NumBuckets m = i"
      unfolding homed_def by fastforce
  qed
next
  assume r: "\<forall>i < NumBuckets m. \<forall>k \<in> fst ` set (items (buckets m ! i)). hash k mod NumBuckets m = i"
  show "homed hash m"
    unfolding homed_def
  proof (clarify)
    fix i b k v assume ib: "(i, b) \<in> set (zip [0..<NumBuckets m] (buckets m))"
      and k: "k \<in> set (map fst (items b))"
    from ib have "i < NumBuckets m \<and> b = buckets m ! i"
      by (auto simp: in_set_zip NumBuckets_def)
    with r k show "hash k mod NumBuckets m = i" by auto
  qed
qed

lemma NumBuckets_update: "NumBuckets (m\<lparr>buckets := (buckets m)[i := b]\<rparr>) = NumBuckets m"
  by (simp add: NumBuckets_def)

lemma quiescent_update:
  "quiescent m \<Longrightarrow> mutex b = free_mutex \<Longrightarrow> quiescent (m\<lparr>buckets := (buckets m)[i := b]\<rparr>)"
  unfolding quiescent_def using set_update_subset_insert[of "buckets m" i b] by auto

lemma chains_distinct_update:
  "chains_distinct m \<Longrightarrow> distinct (map fst (items b)) \<Longrightarrow>
   chains_distinct (m\<lparr>buckets := (buckets m)[i := b]\<rparr>)"
  unfolding chains_distinct_def using set_update_subset_insert[of "buckets m" i b] by auto

lemma homed_update:
  assumes "homed hash m" and "\<forall>k \<in> fst ` set (items b). hash k mod NumBuckets m = i"
  shows "homed hash (m\<lparr>buckets := (buckets m)[i := b]\<rparr>)"
  unfolding homed_iff NumBuckets_update
proof (intro allI impI)
  fix j assume j: "j < NumBuckets m"
  show "\<forall>k \<in> fst ` set (items (buckets (m\<lparr>buckets := (buckets m)[i := b]\<rparr>) ! j)). hash k mod NumBuckets m = j"
  proof (cases "j = i")
    case True
    with j assms(2) show ?thesis by (simp add: NumBuckets_def)
  next
    case False
    with j assms(1) show ?thesis by (simp add: homed_iff)
  qed
qed

lemma keys_upsert: "fst ` set (upsert key val xs) = insert key (fst ` set xs)"
proof (cases "key \<in> fst ` set xs")
  case True
  then have "map fst (upsert key val xs) = map fst xs"
    by (simp add: upsert_def map_fst_update)
  then have "set (map fst (upsert key val xs)) = set (map fst xs)" by simp
  with True show ?thesis by auto
next
  case False
  then show ?thesis by (simp add: upsert_def)
qed

lemma distinct_upsert: "distinct (map fst xs) \<Longrightarrow> distinct (map fst (upsert key val xs))"
  by (simp add: upsert_def map_fst_update)

lemma length_upsert:
  "length (upsert key val xs) = (if key \<in> fst ` set xs then length xs else Suc (length xs))"
  by (simp add: upsert_def)

lemma get_loop_upsert_same: "get_loop key (upsert key val xs) = Some val"
proof (cases "key \<in> fst ` set xs")
  case True
  then show ?thesis by (simp add: upsert_def get_loop_update_same)
next
  case False
  then have "get_loop key xs = None" by (simp add: get_loop_None_iff)
  with False show ?thesis by (simp add: upsert_def get_loop_append)
qed

lemma chains_distinct_nth: "chains_distinct m \<Longrightarrow> i < NumBuckets m \<Longrightarrow> distinct (map fst (items (buckets m ! i)))"
  by (simp add: chains_distinct_def NumBuckets_def)

subsection \<open>The invariant of the sequential client\<close>

text \<open>
  No lock is held between two calls, every entry sits in the bucket of its key, and no
  chain holds a key twice. The constructor establishes this and every call that returns
  keeps it.
\<close>

lemma put_invariant:
  assumes "0 < NumBuckets m" "quiescent m" "homed hash m" "chains_distinct m"
    and "put hash key val m = Inr m'"
  shows "NumBuckets m' = NumBuckets m \<and> quiescent m' \<and> homed hash m' \<and> chains_distinct m'"
proof -
  let ?i = "hash key mod NumBuckets m"
  let ?b = "\<lparr>mutex = free_mutex, items = upsert key val (chain hash key m)\<rparr>"
  have i: "?i < NumBuckets m" using assms(1) by simp
  have "put hash key val m = Inr (m\<lparr>buckets := (buckets m)[?i := ?b]\<rparr>)"
    using assms(1) quiescent_free[OF assms(2) i] by (rule put_closed)
  with assms(5) have m': "m' = m\<lparr>buckets := (buckets m)[?i := ?b]\<rparr>" by simp
  have d: "distinct (map fst (items ?b))"
    using chains_distinct_nth[OF assms(4) i] by (simp add: distinct_upsert chain_def)
  have "\<forall>k \<in> fst ` set (chain hash key m). hash k mod NumBuckets m = ?i"
    using assms(3) i by (simp add: homed_iff chain_def)
  then have h: "\<forall>k \<in> fst ` set (items ?b). hash k mod NumBuckets m = ?i"
    by (simp add: keys_upsert)
  show ?thesis
    unfolding m'
    using quiescent_update[OF assms(2), of ?b ?i] chains_distinct_update[OF assms(4) d, of ?i]
      homed_update[OF assms(3) h]
    by (simp add: NumBuckets_update)
qed

lemma remove_invariant:
  assumes "0 < NumBuckets m" "quiescent m" "homed hash m" "chains_distinct m"
    and "remove hash key m = Inr (r, m')"
  shows "NumBuckets m' = NumBuckets m \<and> quiescent m' \<and> homed hash m' \<and> chains_distinct m'"
proof -
  let ?i = "hash key mod NumBuckets m"
  let ?xs = "chain hash key m"
  let ?b = "\<lparr>mutex = free_mutex, items = erase (find_if (\<lambda>pair. fst pair = key) ?xs) ?xs\<rparr>"
  have i: "?i < NumBuckets m" using assms(1) by simp
  have "remove hash key m = Inr (key \<in> fst ` set ?xs, m\<lparr>buckets := (buckets m)[?i := ?b]\<rparr>)"
    using assms(1) quiescent_free[OF assms(2) i] by (rule remove_closed)
  with assms(5) have m': "m' = m\<lparr>buckets := (buckets m)[?i := ?b]\<rparr>" by simp
  have d: "distinct (map fst (items ?b))"
    using chains_distinct_nth[OF assms(4) i] by (simp add: distinct_erase_find_if chain_def)
  have "\<forall>k \<in> fst ` set ?xs. hash k mod NumBuckets m = ?i"
    using assms(3) i by (simp add: homed_iff chain_def)
  moreover have "fst ` set (items ?b) \<subseteq> fst ` set ?xs"
    using erase_find_if_keys[of key ?xs] by simp
  ultimately have h: "\<forall>k \<in> fst ` set (items ?b). hash k mod NumBuckets m = ?i"
    by blast
  show ?thesis
    unfolding m'
    using quiescent_update[OF assms(2), of ?b ?i] chains_distinct_update[OF assms(4) d, of ?i]
      homed_update[OF assms(3) h]
    by (simp add: NumBuckets_update)
qed

lemma NumBuckets_init: "NumBuckets (init n) = n"
  by (simp add: NumBuckets_def init_def)

lemma quiescent_init: "quiescent (init n)"
  by (simp add: quiescent_def init_def)

lemma homed_init: "homed hash (init n)"
  by (simp add: homed_iff init_def NumBuckets_def)

lemma chains_distinct_init: "chains_distinct (init n)"
  by (simp add: chains_distinct_def init_def)

lemma map_sum_snd_Inr: "map_sum id snd x = Inr b \<Longrightarrow> \<exists>a. x = Inr (a, b)"
  by (cases x) auto

lemma contains_Inr: "contains hash key m = Inr (r, m') \<Longrightarrow> \<exists>r'. get hash key m = Inr (r', m') \<and> r = has_value r'"
  by (cases "get hash key m") (auto simp: contains_def)

lemma step_invariant:
  assumes "quiescent m" "homed hash m" "chains_distinct m" and "step hash c m = Inr m'"
  shows "NumBuckets m' = NumBuckets m \<and> quiescent m' \<and> homed hash m' \<and> chains_distinct m'"
proof (cases c)
  case (Get key)
  with assms(4) have "map_sum id snd (get hash key m) = Inr m'" by simp
  then have "\<exists>r. get hash key m = Inr (r, m')" by (rule map_sum_snd_Inr)
  then obtain r where "get hash key m = Inr (r, m')" ..
  then have "m' = m" by (rule get_Inr_state)
  with assms(1-3) show ?thesis by simp
next
  case (Put key val)
  with assms(4) have p: "put hash key val m = Inr m'" by simp
  have "0 < NumBuckets m" using put_Inr[OF p] by (rule conjunct1)
  then show ?thesis using assms(1-3) p by (rule put_invariant)
next
  case (Remove key)
  with assms(4) have "map_sum id snd (remove hash key m) = Inr m'" by simp
  then have "\<exists>r. remove hash key m = Inr (r, m')" by (rule map_sum_snd_Inr)
  then obtain r where p: "remove hash key m = Inr (r, m')" ..
  have "0 < NumBuckets m" using remove_Inr[OF p] by (rule conjunct1)
  then show ?thesis using assms(1-3) p by (rule remove_invariant)
next
  case (Contains key)
  with assms(4) have "map_sum id snd (contains hash key m) = Inr m'" by simp
  then have "\<exists>r. contains hash key m = Inr (r, m')" by (rule map_sum_snd_Inr)
  then obtain r where "contains hash key m = Inr (r, m')" ..
  then have "\<exists>r'. get hash key m = Inr (r', m') \<and> r = has_value r'" by (rule contains_Inr)
  then obtain r' where "get hash key m = Inr (r', m')" by auto
  then have "m' = m" by (rule get_Inr_state)
  with assms(1-3) show ?thesis by simp
next
  case Size
  with assms(4) have "map_sum id snd (size_map m) = Inr m'" by simp
  then have "\<exists>n. size_map m = Inr (n, m')" by (rule map_sum_snd_Inr)
  then obtain n where "size_map m = Inr (n, m')" ..
  then have "m' = m" by (rule size_Inr_state)
  with assms(1-3) show ?thesis by simp
next
  case Clear
  have "clear m = Inr (init (NumBuckets m))" using assms(1) by (rule clear_closed)
  moreover have "clear m = Inr m'" using assms(4) Clear by simp
  ultimately have "m' = init (NumBuckets m)" by simp
  then show ?thesis
    by (simp add: NumBuckets_init quiescent_init homed_init chains_distinct_init)
qed

lemma step_returns:
  assumes "0 < NumBuckets m" "quiescent m"
  shows "\<exists>m'. step hash c m = Inr m'"
proof (cases c)
  case (Get key)
  have "\<not> writer (mutex (buckets m ! (hash key mod NumBuckets m)))"
    using quiescent_free[OF assms(2), of "hash key mod NumBuckets m"] assms(1)
    by (simp add: free_mutex_def)
  with Get assms(1) show ?thesis by (simp add: get_closed)
next
  case (Put key val)
  have "mutex (buckets m ! (hash key mod NumBuckets m)) = free_mutex"
    using quiescent_free[OF assms(2), of "hash key mod NumBuckets m"] assms(1) by simp
  with Put assms(1) show ?thesis by (simp add: put_closed)
next
  case (Remove key)
  have "mutex (buckets m ! (hash key mod NumBuckets m)) = free_mutex"
    using quiescent_free[OF assms(2), of "hash key mod NumBuckets m"] assms(1) by simp
  with Remove assms(1) show ?thesis by (simp add: remove_closed)
next
  case (Contains key)
  have "\<not> writer (mutex (buckets m ! (hash key mod NumBuckets m)))"
    using quiescent_free[OF assms(2), of "hash key mod NumBuckets m"] assms(1)
    by (simp add: free_mutex_def)
  with Contains assms(1) show ?thesis by (simp add: contains_def get_closed)
next
  case Size
  with quiescent_readable[OF assms(2)] show ?thesis by (simp add: size_closed)
next
  case Clear
  with assms(2) show ?thesis by (simp add: clear_closed)
qed

lemma run_invariant:
  "quiescent m \<Longrightarrow> homed hash m \<Longrightarrow> chains_distinct m \<Longrightarrow> run hash cs m = Inr m' \<Longrightarrow>
   NumBuckets m' = NumBuckets m \<and> quiescent m' \<and> homed hash m' \<and> chains_distinct m'"
proof (induction cs arbitrary: m)
  case Nil
  then show ?case by simp
next
  case (Cons c cs)
  from Cons.prems(4) obtain m1 where s: "step hash c m = Inr m1" and r: "run hash cs m1 = Inr m'"
    by (cases "step hash c m") auto
  from step_invariant[OF Cons.prems(1-3) s]
  have "NumBuckets m1 = NumBuckets m" "quiescent m1" "homed hash m1" "chains_distinct m1"
    by simp_all
  with Cons.IH[of m1] r show ?case by simp
qed

lemma run_returns:
  "0 < NumBuckets m \<Longrightarrow> quiescent m \<Longrightarrow> homed hash m \<Longrightarrow> chains_distinct m \<Longrightarrow>
   \<exists>m'. run hash cs m = Inr m'"
proof (induction cs arbitrary: m)
  case Nil
  then show ?case by simp
next
  case (Cons c cs)
  from step_returns[OF Cons.prems(1,2)] obtain m1 where s: "step hash c m = Inr m1" by blast
  from step_invariant[OF Cons.prems(2-4) s] Cons.prems(1)
  have "0 < NumBuckets m1" "quiescent m1" "homed hash m1" "chains_distinct m1"
    by simp_all
  with Cons.IH[of m1] s show ?case by simp
qed

text \<open>
  Chains that are each free of repeated keys, in buckets that each hold only keys of
  their own index, have no key in common.
\<close>

lemma distinct_concat_offset:
  "(\<forall>i < length xss. distinct (xss ! i) \<and> (\<forall>x \<in> set (xss ! i). f x = i + off)) \<Longrightarrow>
   distinct (concat xss)"
proof (induction xss arbitrary: off)
  case Nil
  then show ?case by simp
next
  case (Cons xs xss)
  have head: "distinct xs \<and> (\<forall>x \<in> set xs. f x = off)"
    using Cons.prems[rule_format, of 0] by simp
  have tail: "\<forall>i < length xss. distinct (xss ! i) \<and> (\<forall>x \<in> set (xss ! i). f x = i + Suc off)"
    using Cons.prems by auto
  have "distinct (concat xss)" using tail by (rule Cons.IH)
  moreover have "set xs \<inter> set (concat xss) = {}"
  proof (rule ccontr)
    assume "set xs \<inter> set (concat xss) \<noteq> {}"
    then obtain x ys where x: "x \<in> set xs" "ys \<in> set xss" "x \<in> set ys" by auto
    then obtain i where "i < length xss" "xss ! i = ys" by (auto simp: in_set_conv_nth)
    with tail x(3) have "f x = i + Suc off" by auto
    with head x(1) show False by auto
  qed
  ultimately show ?case using head by simp
qed

lemma distinct_all_keys:
  assumes "homed hash m" "chains_distinct m"
  shows "distinct (all_keys m)"
proof -
  let ?xss = "map (\<lambda>b. map fst (items b)) (buckets m)"
  have "\<forall>i < length ?xss. distinct (?xss ! i) \<and> (\<forall>x \<in> set (?xss ! i). hash x mod NumBuckets m = i + 0)"
    using assms by (auto simp: homed_iff chains_distinct_def NumBuckets_def)
  then have "distinct (concat ?xss)" by (rule distinct_concat_offset)
  then show ?thesis by (simp add: all_keys_def)
qed

subsection \<open>The chain of a key after a call\<close>

lemma chain_update:
  "i < NumBuckets m \<Longrightarrow>
   chain hash key (m\<lparr>buckets := (buckets m)[i := b]\<rparr>) =
     (if hash key mod NumBuckets m = i then items b else chain hash key m)"
  by (simp add: chain_def NumBuckets_def)

lemma chain_init: "0 < n \<Longrightarrow> chain hash key (init n) = []"
  by (simp add: chain_def init_def NumBuckets_def)

lemma put_chain:
  assumes "put hash key val m = Inr m'"
  shows "chain hash key' m' =
     (if hash key' mod NumBuckets m = hash key mod NumBuckets m
      then upsert key val (chain hash key m) else chain hash key' m)"
proof -
  let ?i = "hash key mod NumBuckets m"
  have n: "0 < NumBuckets m" using put_Inr[OF assms] by (rule conjunct1)
  have f: "mutex (buckets m ! ?i) = free_mutex" using put_Inr[OF assms] by (rule conjunct2)
  have "put hash key val m = Inr (m\<lparr>buckets := (buckets m)[?i :=
           \<lparr>mutex = free_mutex, items = upsert key val (chain hash key m)\<rparr>]\<rparr>)"
    using n f by (rule put_closed)
  with assms have m': "m' = m\<lparr>buckets := (buckets m)[?i :=
           \<lparr>mutex = free_mutex, items = upsert key val (chain hash key m)\<rparr>]\<rparr>" by simp
  have i: "?i < NumBuckets m" using n by simp
  show ?thesis unfolding m' by (simp add: chain_update[OF i])
qed

lemma remove_chain:
  assumes "remove hash key m = Inr (r, m')"
  shows "chain hash key' m' =
     (if hash key' mod NumBuckets m = hash key mod NumBuckets m
      then erase (find_if (\<lambda>pair. fst pair = key) (chain hash key m)) (chain hash key m)
      else chain hash key' m)"
    and "r = (key \<in> fst ` set (chain hash key m))"
proof -
  let ?i = "hash key mod NumBuckets m"
  let ?xs = "chain hash key m"
  let ?b = "\<lparr>mutex = free_mutex, items = erase (find_if (\<lambda>pair. fst pair = key) ?xs) ?xs\<rparr>"
  have n: "0 < NumBuckets m" using remove_Inr[OF assms] by (rule conjunct1)
  have f: "mutex (buckets m ! ?i) = free_mutex" using remove_Inr[OF assms] by (rule conjunct2)
  have "remove hash key m = Inr (key \<in> fst ` set ?xs, m\<lparr>buckets := (buckets m)[?i := ?b]\<rparr>)"
    using n f by (rule remove_closed)
  with assms have m': "m' = m\<lparr>buckets := (buckets m)[?i := ?b]\<rparr>"
    and r: "r = (key \<in> fst ` set ?xs)" by simp_all
  have i: "?i < NumBuckets m" using n by simp
  show "chain hash key' m' =
     (if hash key' mod NumBuckets m = hash key mod NumBuckets m
      then erase (find_if (\<lambda>pair. fst pair = key) (chain hash key m)) (chain hash key m)
      else chain hash key' m)"
    unfolding m' by (simp add: chain_update[OF i])
  show "r = (key \<in> fst ` set (chain hash key m))" by (rule r)
qed

text \<open>A key that no call puts stays out of its chain.\<close>

lemma step_keeps_absent:
  assumes "key \<notin> fst ` set (chain hash key m)" and "\<forall>val. c \<noteq> Put key val"
    and "quiescent m" and "step hash c m = Inr m'"
  shows "key \<notin> fst ` set (chain hash key m')"
proof (cases c)
  case (Get k)
  with assms(4) have "map_sum id snd (get hash k m) = Inr m'" by simp
  then have "\<exists>r. get hash k m = Inr (r, m')" by (rule map_sum_snd_Inr)
  then obtain r where "get hash k m = Inr (r, m')" ..
  then have "m' = m" by (rule get_Inr_state)
  with assms(1) show ?thesis by simp
next
  case (Put k val)
  with assms(2) have ne: "k \<noteq> key" by auto
  from Put assms(4) have p: "put hash k val m = Inr m'" by simp
  show ?thesis
  proof (cases "hash key mod NumBuckets m = hash k mod NumBuckets m")
    case True
    then have "chain hash key m = chain hash k m" by (simp add: chain_def)
    with assms(1) ne True show ?thesis by (simp add: put_chain[OF p] keys_upsert)
  next
    case False
    with assms(1) show ?thesis by (simp add: put_chain[OF p])
  qed
next
  case (Remove k)
  with assms(4) have "map_sum id snd (remove hash k m) = Inr m'" by simp
  then have "\<exists>r. remove hash k m = Inr (r, m')" by (rule map_sum_snd_Inr)
  then obtain r where p: "remove hash k m = Inr (r, m')" ..
  show ?thesis
  proof (cases "hash key mod NumBuckets m = hash k mod NumBuckets m")
    case True
    then have "chain hash key m = chain hash k m" by (simp add: chain_def)
    with assms(1) True erase_find_if_keys[of k "chain hash k m"] show ?thesis
      by (auto simp: remove_chain(1)[OF p])
  next
    case False
    with assms(1) show ?thesis by (simp add: remove_chain(1)[OF p])
  qed
next
  case (Contains k)
  with assms(4) have "map_sum id snd (contains hash k m) = Inr m'" by simp
  then have "\<exists>r. contains hash k m = Inr (r, m')" by (rule map_sum_snd_Inr)
  then obtain r where "contains hash k m = Inr (r, m')" ..
  then have "\<exists>r'. get hash k m = Inr (r', m') \<and> r = has_value r'" by (rule contains_Inr)
  then obtain r' where "get hash k m = Inr (r', m')" by auto
  then have "m' = m" by (rule get_Inr_state)
  with assms(1) show ?thesis by simp
next
  case Size
  with assms(4) have "map_sum id snd (size_map m) = Inr m'" by simp
  then have "\<exists>n. size_map m = Inr (n, m')" by (rule map_sum_snd_Inr)
  then obtain n where "size_map m = Inr (n, m')" ..
  then have "m' = m" by (rule size_Inr_state)
  with assms(1) show ?thesis by simp
next
  case Clear
  have "clear m = Inr (init (NumBuckets m))" using assms(3) by (rule clear_closed)
  moreover have "clear m = Inr m'" using assms(4) Clear by simp
  ultimately have m': "m' = init (NumBuckets m)" by simp
  show ?thesis
  proof (cases "NumBuckets m = 0")
    case True
    then have "m' = m" unfolding m' by (simp add: init_def NumBuckets_def)
    with assms(1) show ?thesis by simp
  next
    case False
    then show ?thesis unfolding m' by (simp add: chain_init)
  qed
qed

lemma run_keeps_absent:
  "key \<notin> fst ` set (chain hash key m) \<Longrightarrow> \<forall>val. Put key val \<notin> set cs \<Longrightarrow>
   quiescent m \<Longrightarrow> homed hash m \<Longrightarrow> chains_distinct m \<Longrightarrow> run hash cs m = Inr m' \<Longrightarrow>
   key \<notin> fst ` set (chain hash key m')"
proof (induction cs arbitrary: m)
  case Nil
  then show ?case by simp
next
  case (Cons c cs)
  from Cons.prems(6) obtain m1 where s: "step hash c m = Inr m1" and r: "run hash cs m1 = Inr m'"
    by (cases "step hash c m") auto
  from Cons.prems(2) have c: "\<forall>val. c \<noteq> Put key val" and cs: "\<forall>val. Put key val \<notin> set cs"
    by auto
  have a: "key \<notin> fst ` set (chain hash key m1)"
    using Cons.prems(1) c Cons.prems(3) s by (rule step_keeps_absent)
  from step_invariant[OF Cons.prems(3-5) s]
  have "quiescent m1" "homed hash m1" "chains_distinct m1" by simp_all
  with Cons.IH[OF a cs _ _ _ r] show ?case by simp
qed

lemma get_absent:
  assumes "0 < NumBuckets m" "quiescent m" "key \<notin> fst ` set (chain hash key m)"
  shows "get hash key m = Inr (None, m)" and "contains hash key m = Inr (False, m)"
proof -
  have "\<not> writer (mutex (buckets m ! (hash key mod NumBuckets m)))"
    using quiescent_free[OF assms(2), of "hash key mod NumBuckets m"] assms(1)
    by (simp add: free_mutex_def)
  with assms(1) have "get hash key m = Inr (get_loop key (chain hash key m), m)"
    by (rule get_closed)
  moreover have "get_loop key (chain hash key m) = None"
    using assms(3) by (simp add: get_loop_None_iff)
  ultimately show "get hash key m = Inr (None, m)" by simp
  then show "contains hash key m = Inr (False, m)" by (simp add: contains_def has_value_def)
qed

lemma contains_closed:
  assumes "0 < NumBuckets m" and "\<not> writer (mutex (buckets m ! (hash key mod NumBuckets m)))"
  shows "contains hash key m = Inr (key \<in> fst ` set (chain hash key m), m)"
proof -
  have "get hash key m = Inr (get_loop key (chain hash key m), m)"
    using assms by (rule get_closed)
  moreover have "has_value (get_loop key (chain hash key m)) = (key \<in> fst ` set (chain hash key m))"
    using get_loop_None_iff[of key "chain hash key m"]
    by (cases "get_loop key (chain hash key m)") (simp_all add: has_value_def)
  ultimately show ?thesis by (simp add: contains_def)
qed

lemma has_value_iff: "has_value r \<longleftrightarrow> r \<noteq> None"
  by (cases r) (simp_all add: has_value_def)

subsection \<open>The example map\<close>

text \<open>The sequential client reaches the example map from a fresh map of two buckets.\<close>

lemma example_reached:
  "run (\<lambda>k. k) [Put 1 ''A'', Put 2 ''B'', Put 4 ''D''] (init 2) = Inr example"
  by code_simp

subsection \<open>Counting entries\<close>

lemma sum_list_map_update:
  "i < length bs \<Longrightarrow>
   sum_list (map f (bs[i := b])) + f (bs ! i) = sum_list (map f bs) + (f b :: nat)"
proof (induction bs arbitrary: i)
  case Nil
  then show ?case by simp
next
  case (Cons a bs)
  then show ?case by (cases i) auto
qed

lemma entries_update:
  "i < NumBuckets m \<Longrightarrow>
   entries (m\<lparr>buckets := (buckets m)[i := b]\<rparr>) + length (items (buckets m ! i)) =
   entries m + length (items b)"
  unfolding entries_def NumBuckets_def
  using sum_list_map_update[of i "buckets m" "\<lambda>b. length (items b)" b] by simp

lemma entries_length_all_keys: "entries m = length (all_keys m)"
  by (simp add: entries_def all_keys_def length_concat comp_def)

lemma entries_init: "entries (init n) = 0"
  by (simp add: entries_def init_def)

lemma all_keys_init: "all_keys (init n) = []"
  by (simp add: all_keys_def init_def)

lemma put_entries:
  assumes "put hash key val m = Inr m'"
  shows "entries m' = (if key \<in> fst ` set (chain hash key m) then entries m else Suc (entries m))"
proof -
  let ?i = "hash key mod NumBuckets m"
  let ?b = "\<lparr>mutex = free_mutex, items = upsert key val (chain hash key m)\<rparr>"
  have n: "0 < NumBuckets m" using put_Inr[OF assms] by (rule conjunct1)
  have f: "mutex (buckets m ! ?i) = free_mutex" using put_Inr[OF assms] by (rule conjunct2)
  have "put hash key val m = Inr (m\<lparr>buckets := (buckets m)[?i := ?b]\<rparr>)"
    using n f by (rule put_closed)
  with assms have m': "m' = m\<lparr>buckets := (buckets m)[?i := ?b]\<rparr>" by simp
  have i: "?i < NumBuckets m" using n by simp
  have "entries m' + length (chain hash key m) = entries m + length (upsert key val (chain hash key m))"
    unfolding m' using entries_update[OF i, of ?b] by (simp add: chain_def)
  then show ?thesis by (simp add: length_upsert split: if_splits)
qed

lemma remove_entries:
  assumes "remove hash key m = Inr (r, m')"
  shows "entries m = (if r then Suc (entries m') else entries m')"
proof -
  let ?i = "hash key mod NumBuckets m"
  let ?xs = "chain hash key m"
  let ?it = "find_if (\<lambda>pair. fst pair = key) ?xs"
  let ?b = "\<lparr>mutex = free_mutex, items = erase ?it ?xs\<rparr>"
  have n: "0 < NumBuckets m" using remove_Inr[OF assms] by (rule conjunct1)
  have f: "mutex (buckets m ! ?i) = free_mutex" using remove_Inr[OF assms] by (rule conjunct2)
  have "remove hash key m = Inr (key \<in> fst ` set ?xs, m\<lparr>buckets := (buckets m)[?i := ?b]\<rparr>)"
    using n f by (rule remove_closed)
  with assms have m': "m' = m\<lparr>buckets := (buckets m)[?i := ?b]\<rparr>"
    and r: "r = (key \<in> fst ` set ?xs)" by simp_all
  have i: "?i < NumBuckets m" using n by simp
  have e: "entries m' + length ?xs = entries m + length (erase ?it ?xs)"
    unfolding m' using entries_update[OF i, of ?b] by (simp add: chain_def)
  show ?thesis
  proof (cases r)
    case True
    with r have "?it \<noteq> length ?xs" by (auto simp: find_if_end_iff)
    with find_if_le[of "\<lambda>pair. fst pair = key" ?xs] have lt: "?it < length ?xs" by simp
    then have "length (erase ?it ?xs) = length ?xs - 1" by (rule length_erase)
    with e lt True show ?thesis by simp
  next
    case False
    with r have "?it = length ?xs" by (auto simp: find_if_end_iff)
    with e False show ?thesis by (simp add: erase_end)
  qed
qed

text \<open>With every entry in the bucket of its key, a key is in the map exactly when it is in its chain.\<close>

lemma all_keys_home:
  assumes "homed hash m" "0 < NumBuckets m"
  shows "key \<in> set (all_keys m) \<longleftrightarrow> key \<in> fst ` set (chain hash key m)"
proof
  assume "key \<in> set (all_keys m)"
  then obtain b where b: "b \<in> set (buckets m)" "key \<in> fst ` set (items b)"
    by (auto simp: all_keys_def)
  then obtain i where i: "i < NumBuckets m" "buckets m ! i = b"
    by (auto simp: in_set_conv_nth NumBuckets_def)
  with assms(1) b(2) have "hash key mod NumBuckets m = i" by (auto simp: homed_iff)
  with i b(2) show "key \<in> fst ` set (chain hash key m)" by (simp add: chain_def)
next
  assume a: "key \<in> fst ` set (chain hash key m)"
  have "buckets m ! (hash key mod NumBuckets m) \<in> set (buckets m)"
    using assms(2) by (simp add: NumBuckets_def)
  with a show "key \<in> set (all_keys m)" by (auto simp: all_keys_def chain_def)
qed

lemma count_list_distinct: "distinct xs \<Longrightarrow> x \<in> set xs \<Longrightarrow> count_list xs x = 1"
  by (induction xs) (auto simp: count_list_0_iff)


subsection \<open>Buckets that a call leaves alone\<close>

lemma put_frame:
  assumes "put hash key val m = Inr m'"
  shows "NumBuckets m' = NumBuckets m"
    and "j \<noteq> hash key mod NumBuckets m \<Longrightarrow> buckets m' ! j = buckets m ! j"
proof -
  let ?i = "hash key mod NumBuckets m"
  let ?b = "\<lparr>mutex = free_mutex, items = upsert key val (chain hash key m)\<rparr>"
  have n: "0 < NumBuckets m" using put_Inr[OF assms] by (rule conjunct1)
  have f: "mutex (buckets m ! ?i) = free_mutex" using put_Inr[OF assms] by (rule conjunct2)
  have "put hash key val m = Inr (m\<lparr>buckets := (buckets m)[?i := ?b]\<rparr>)"
    using n f by (rule put_closed)
  with assms have m': "m' = m\<lparr>buckets := (buckets m)[?i := ?b]\<rparr>" by simp
  show "NumBuckets m' = NumBuckets m" unfolding m' by (rule NumBuckets_update)
  show "j \<noteq> ?i \<Longrightarrow> buckets m' ! j = buckets m ! j" unfolding m' by simp
qed

lemma remove_frame:
  assumes "remove hash key m = Inr (r, m')"
  shows "NumBuckets m' = NumBuckets m"
    and "j \<noteq> hash key mod NumBuckets m \<Longrightarrow> buckets m' ! j = buckets m ! j"
proof -
  let ?i = "hash key mod NumBuckets m"
  let ?xs = "chain hash key m"
  let ?b = "\<lparr>mutex = free_mutex, items = erase (find_if (\<lambda>pair. fst pair = key) ?xs) ?xs\<rparr>"
  have n: "0 < NumBuckets m" using remove_Inr[OF assms] by (rule conjunct1)
  have f: "mutex (buckets m ! ?i) = free_mutex" using remove_Inr[OF assms] by (rule conjunct2)
  have "remove hash key m = Inr (key \<in> fst ` set ?xs, m\<lparr>buckets := (buckets m)[?i := ?b]\<rparr>)"
    using n f by (rule remove_closed)
  with assms have m': "m' = m\<lparr>buckets := (buckets m)[?i := ?b]\<rparr>" by simp
  show "NumBuckets m' = NumBuckets m" unfolding m' by (rule NumBuckets_update)
  show "j \<noteq> ?i \<Longrightarrow> buckets m' ! j = buckets m ! j" unfolding m' by simp
qed

subsection \<open>The put of the header and the repaired put\<close>

text \<open>
  A call of \<open>put_as_written\<close> that returns has overwritten an entry, and the repaired
  \<open>put\<close> returns the same map; where the key is not in its chain,
  \<open>put_as_written\<close> does not return a map.
\<close>

lemma put_as_written_Inr:
  assumes "put_as_written hash key val m = Inr m'"
  shows "put hash key val m = Inr m'" and "key \<in> fst ` set (chain hash key m)"
proof -
  have n: "0 < NumBuckets m"
    using assms by (auto simp: put_as_written_def getBucketIndex_def split: if_splits)
  let ?b = "buckets m ! (hash key mod NumBuckets m)"
  from assms n obtain held where h: "lock (mutex ?b) = Some held"
    by (auto simp: put_as_written_def getBucketIndex_def Let_def split: option.splits)
  from assms n h obtain ys where p: "put_loop key val (items ?b) = Some ys"
    by (auto simp: put_as_written_def getBucketIndex_def Let_def split: option.splits)
  from assms n h p show "put hash key val m = Inr m'"
    by (simp add: put_as_written_def put_def getBucketIndex_def Let_def)
  from p have "put_loop key val (items ?b) \<noteq> None" by simp
  then show "key \<in> fst ` set (chain hash key m)"
    by (simp add: put_loop_None_iff chain_def)
qed

lemma put_as_written_absent:
  assumes "0 < NumBuckets m" and "mutex (buckets m ! (hash key mod NumBuckets m)) = free_mutex"
    and "key \<notin> fst ` set (chain hash key m)"
  shows "put_as_written hash key val m = Inl NoSuchMember"
proof -
  have "put_loop key val (items (buckets m ! (hash key mod NumBuckets m))) = None"
    using assms(3) by (simp add: put_loop_None_iff chain_def)
  with assms(1,2) show ?thesis
    by (simp add: put_as_written_def getBucketIndex_def Let_def lock_free)
qed

subsection \<open>A put followed by a get\<close>

lemma put_then_get:
  assumes "0 < NumBuckets m" "quiescent m"
  shows "\<exists>m'. put hash key val m = Inr m' \<and> 0 < NumBuckets m' \<and> quiescent m' \<and>
           chain hash key m' = upsert key val (chain hash key m) \<and>
           get hash key m' = Inr (Some val, m')"
proof -
  let ?i = "hash key mod NumBuckets m"
  let ?b = "\<lparr>mutex = free_mutex, items = upsert key val (chain hash key m)\<rparr>"
  let ?m' = "m\<lparr>buckets := (buckets m)[?i := ?b]\<rparr>"
  have i: "?i < NumBuckets m" using assms(1) by simp
  have p: "put hash key val m = Inr ?m'"
    using assms(1) quiescent_free[OF assms(2) i] by (rule put_closed)
  have n': "0 < NumBuckets ?m'" using assms(1) by (simp add: NumBuckets_update)
  have q': "quiescent ?m'" using assms(2) by (simp add: quiescent_update)
  have c: "chain hash key ?m' = upsert key val (chain hash key m)"
    using put_chain[OF p, of key] by simp
  have "\<not> writer (mutex (buckets ?m' ! (hash key mod NumBuckets ?m')))"
    using quiescent_free[OF q', of "hash key mod NumBuckets ?m'"] n' by (simp add: free_mutex_def)
  with n' have "get hash key ?m' = Inr (get_loop key (chain hash key ?m'), ?m')"
    by (rule get_closed)
  then have g: "get hash key ?m' = Inr (Some val, ?m')"
    unfolding c by (simp add: get_loop_upsert_same)
  from p n' q' c g show ?thesis by blast
qed

section \<open>The claims\<close>

text \<open>
  Claim C1 says that \<^verbatim>\<open>put\<close> appends a new entry when the key is not in its
  chain. \<^verbatim>\<open>put\<close> as the header has it does not: the first call of
  \<^verbatim>\<open>test.cpp\<close>, \<^verbatim>\<open>put(1, "Alice")\<close> on a freshly constructed map of 1024
  buckets, runs off the end of the loop into line 62 and leaves no map at all, whatever
  the hash function, where the repaired \<open>put\<close> returns a map whose chain for the
  key is the one entry put.
\<close>

theorem put_as_written_appends_nothing:
  "put_as_written hash (1::int) ''Alice'' (init 1024) = Inl NoSuchMember \<and>
   (\<exists>m'. put hash (1::int) ''Alice'' (init 1024) = Inr m' \<and>
         chain hash 1 m' = [(1, ''Alice'')])"
proof -
  let ?m = "init 1024 :: (int, string) ConcurrentHashMap"
  have n: "0 < NumBuckets ?m" by (simp add: NumBuckets_init)
  have q: "quiescent ?m" by (rule quiescent_init)
  have i: "hash 1 mod NumBuckets ?m < NumBuckets ?m" using n by simp
  have f: "mutex (buckets ?m ! (hash 1 mod NumBuckets ?m)) = free_mutex"
    using q i by (rule quiescent_free)
  have c: "chain hash 1 ?m = []" by (simp add: chain_init)
  then have a: "(1::int) \<notin> fst ` set (chain hash 1 ?m)" by simp
  have w: "put_as_written hash 1 ''Alice'' ?m = Inl NoSuchMember"
    using n f a by (rule put_as_written_absent)
  obtain m' where p: "put hash 1 ''Alice'' ?m = Inr m'"
    and c': "chain hash 1 m' = upsert 1 ''Alice'' (chain hash 1 ?m)"
    using put_then_get[OF n q, of hash 1 "''Alice''"] by blast
  from c' c have "chain hash 1 m' = [(1, ''Alice'')]" by (simp add: upsert_def)
  with w p show ?thesis by blast
qed

text \<open>
  The repaired \<open>put\<close> is the upsert that the specification describes. On a map with
  at least one bucket and no lock held, it returns: when the chain of the key holds an
  entry with the key, the first such entry is overwritten where it stands and the number
  of entries stays; otherwise the entry is appended to the chain and the number of
  entries grows by one. A \<open>get\<close> of the key then returns the value put. After a
  second \<open>put\<close> of the same key, \<open>get\<close> returns the second value, the chain
  holds the same keys in the same places, \<open>size_map\<close> returns what it returned after
  the first \<open>put\<close>, the number of all entries, and, on a map that held every entry
  in the bucket of its key and no key twice in a chain, exactly one of these entries has
  the key.
\<close>

theorem repaired_put_is_upsert:
  assumes "0 < NumBuckets m" "quiescent m"
  shows "\<exists>m1 m2. put hash key v1 m = Inr m1 \<and>
     (key \<in> fst ` set (chain hash key m) \<longrightarrow>
        find_if (\<lambda>pair. fst pair = key) (chain hash key m) < length (chain hash key m) \<and>
        fst (chain hash key m ! find_if (\<lambda>pair. fst pair = key) (chain hash key m)) = key \<and>
        chain hash key m1 =
          (chain hash key m)[find_if (\<lambda>pair. fst pair = key) (chain hash key m) := (key, v1)] \<and>
        entries m1 = entries m) \<and>
     (key \<notin> fst ` set (chain hash key m) \<longrightarrow>
        chain hash key m1 = chain hash key m @ [(key, v1)] \<and> entries m1 = Suc (entries m)) \<and>
     get hash key m1 = Inr (Some v1, m1) \<and>
     put hash key v2 m1 = Inr m2 \<and>
     get hash key m2 = Inr (Some v2, m2) \<and>
     map fst (chain hash key m2) = map fst (chain hash key m1) \<and>
     size_map m1 = Inr (length (all_keys m1), m1) \<and>
     size_map m2 = Inr (length (all_keys m1), m2) \<and>
     length (all_keys m2) = length (all_keys m1) \<and>
     (homed hash m \<and> chains_distinct m \<longrightarrow> count_list (all_keys m2) key = 1)"
proof -
  let ?xs = "chain hash key m"
  let ?it = "find_if (\<lambda>pair. fst pair = key) ?xs"
  from put_then_get[OF assms, of hash key v1] obtain m1 where
    p1: "put hash key v1 m = Inr m1" and n1: "0 < NumBuckets m1" and q1: "quiescent m1"
    and c1: "chain hash key m1 = upsert key v1 ?xs" and g1: "get hash key m1 = Inr (Some v1, m1)"
    by blast
  from put_then_get[OF n1 q1, of hash key v2] obtain m2 where
    p2: "put hash key v2 m1 = Inr m2" and n2: "0 < NumBuckets m2" and q2: "quiescent m2"
    and c2: "chain hash key m2 = upsert key v2 (chain hash key m1)"
    and g2: "get hash key m2 = Inr (Some v2, m2)"
    by blast
  have present: "?it < length ?xs \<and> fst (?xs ! ?it) = key \<and>
      chain hash key m1 = ?xs[?it := (key, v1)] \<and> entries m1 = entries m"
    if r: "key \<in> fst ` set ?xs"
  proof (intro conjI)
    from r have "?it \<noteq> length ?xs" by (auto simp: find_if_end_iff)
    with find_if_le[of "\<lambda>pair. fst pair = key" ?xs] show lt: "?it < length ?xs" by simp
    then show "fst (?xs ! ?it) = key" by (rule find_if_hit)
    show "chain hash key m1 = ?xs[?it := (key, v1)]" using r c1 by (simp add: upsert_def)
    show "entries m1 = entries m" using put_entries[OF p1] r by simp
  qed
  have absent: "chain hash key m1 = ?xs @ [(key, v1)] \<and> entries m1 = Suc (entries m)"
    if r: "key \<notin> fst ` set ?xs"
    using r c1 put_entries[OF p1] by (simp add: upsert_def)
  have k1: "key \<in> fst ` set (chain hash key m1)"
    unfolding c1 by (simp add: keys_upsert)
  have keys2: "map fst (chain hash key m2) = map fst (chain hash key m1)"
    unfolding c2 using k1 by (simp add: upsert_def map_fst_update)
  have e2: "entries m2 = entries m1" using put_entries[OF p2] k1 by simp
  have s1: "size_map m1 = Inr (length (all_keys m1), m1)"
    using size_closed[OF quiescent_readable[OF q1]] by (simp add: entries_length_all_keys)
  have l2: "length (all_keys m2) = length (all_keys m1)"
    using e2 by (simp add: entries_length_all_keys)
  have s2: "size_map m2 = Inr (length (all_keys m1), m2)"
    using size_closed[OF quiescent_readable[OF q2]] e2 by (simp add: entries_length_all_keys)
  have once: "count_list (all_keys m2) key = 1" if inv: "homed hash m \<and> chains_distinct m"
  proof -
    from inv have h: "homed hash m" and d: "chains_distinct m" by simp_all
    from put_invariant[OF assms h d p1] have h1: "homed hash m1" and d1: "chains_distinct m1"
      by simp_all
    from put_invariant[OF n1 q1 h1 d1 p2] have h2: "homed hash m2" and d2: "chains_distinct m2"
      by simp_all
    have "key \<in> fst ` set (chain hash key m2)"
      unfolding c2 by (simp add: keys_upsert)
    then have "key \<in> set (all_keys m2)" using all_keys_home[OF h2 n2, of key] by simp
    moreover have "distinct (all_keys m2)" using h2 d2 by (rule distinct_all_keys)
    ultimately show ?thesis by (simp add: count_list_distinct)
  qed
  from p1 present absent g1 p2 g2 keys2 s1 s2 l2 once show ?thesis by blast
qed

text \<open>
  Witness: key 4 is the second entry of bucket 0 of the example map and is overwritten
  there, twice; key 6 hashes to the same bucket and is appended.
\<close>

theorem repaired_put_is_upsert_witness:
  "0 < NumBuckets example \<and> quiescent example \<and> homed (\<lambda>k. k) example \<and> chains_distinct example \<and>
   (\<exists>m1 m2. put (\<lambda>k. k) 4 ''X'' example = Inr m1 \<and>
       chain (\<lambda>k. k) 4 m1 = [(2, ''B''), (4, ''X'')] \<and>
       put (\<lambda>k. k) 4 ''Y'' m1 = Inr m2 \<and> get (\<lambda>k. k) 4 m2 = Inr (Some ''Y'', m2) \<and>
       size_map m2 = Inr (3, m2) \<and> count_list (all_keys m2) 4 = 1) \<and>
   (\<exists>m1. put (\<lambda>k. k) 6 ''F'' example = Inr m1 \<and>
       chain (\<lambda>k. k) 6 m1 = [(2, ''B''), (4, ''D''), (6, ''F'')])"
proof -
  have h: "0 < NumBuckets example" "quiescent example" "homed (\<lambda>k. k) example" "chains_distinct example"
    by code_simp+
  have c: "chain (\<lambda>k. k) 4 example = [(2, ''B''), (4, ''D'')]"
    "chain (\<lambda>k. k) 6 example = [(2, ''B''), (4, ''D'')]"
    by code_simp+
  have f: "find_if (\<lambda>pair. fst pair = 4) [(2::nat, ''B''), (4, ''D'')] = 1" by code_simp
  have e: "entries example = 3" by code_simp
  from repaired_put_is_upsert[OF h(1,2), of "\<lambda>k. k" 4 "''X''" "''Y''"] obtain m1 m2 where
    x: "put (\<lambda>k. k) 4 ''X'' example = Inr m1"
      "4 \<in> fst ` set (chain (\<lambda>k. k) 4 example) \<longrightarrow>
         chain (\<lambda>k. k) 4 m1 = (chain (\<lambda>k. k) 4 example)[find_if (\<lambda>pair. fst pair = 4) (chain (\<lambda>k. k) 4 example) := (4, ''X'')]
         \<and> entries m1 = entries example"
      "put (\<lambda>k. k) 4 ''Y'' m1 = Inr m2" "get (\<lambda>k. k) 4 m2 = Inr (Some ''Y'', m2)"
      "size_map m1 = Inr (length (all_keys m1), m1)"
      "size_map m2 = Inr (length (all_keys m1), m2)"
      "homed (\<lambda>k. k) example \<and> chains_distinct example \<longrightarrow> count_list (all_keys m2) 4 = 1"
    by blast
  have c1: "chain (\<lambda>k. k) 4 m1 = [(2, ''B''), (4, ''X'')]" and e1: "entries m1 = 3"
    using x(2) c(1) f e by simp_all
  have s2: "size_map m2 = Inr (3, m2)"
    using x(6) e1 by (simp add: entries_length_all_keys)
  have a: "\<exists>m1 m2. put (\<lambda>k. k) 4 ''X'' example = Inr m1 \<and>
       chain (\<lambda>k. k) 4 m1 = [(2, ''B''), (4, ''X'')] \<and>
       put (\<lambda>k. k) 4 ''Y'' m1 = Inr m2 \<and> get (\<lambda>k. k) 4 m2 = Inr (Some ''Y'', m2) \<and>
       size_map m2 = Inr (3, m2) \<and> count_list (all_keys m2) 4 = 1"
    using x(1,3,4,7) c1 s2 h(3,4) by blast
  from repaired_put_is_upsert[OF h(1,2), of "\<lambda>k. k" 6 "''F''" "''G''"]
  have b: "\<exists>m1. put (\<lambda>k. k) 6 ''F'' example = Inr m1 \<and>
       chain (\<lambda>k. k) 6 m1 = [(2, ''B''), (4, ''D''), (6, ''F'')]"
    using c(2) by auto
  from h a b show ?thesis by simp
qed

text \<open>
  Claim C2. On a map with at least one bucket, no lock held, every entry in the bucket
  of its key and no key twice in a chain, \<open>remove\<close> returns, and it returns true
  exactly when the map holds an entry with the key. When it returns false the map is the
  one it was given, so \<open>size_map\<close> returns what it returned before. When it returns
  true the map no longer holds the key, holds one entry less, \<open>get\<close> of the key
  returns empty and \<open>contains\<close> returns false, and the lookup of every other key
  finds what it found before.
\<close>

theorem remove_reports_presence:
  assumes "0 < NumBuckets m" "quiescent m" "homed hash m" "chains_distinct m"
  shows "\<exists>r m'. remove hash key m = Inr (r, m') \<and> (r \<longleftrightarrow> key \<in> set (all_keys m)) \<and>
     (\<not> r \<longrightarrow> m' = m \<and> size_map m' = size_map m) \<and>
     (r \<longrightarrow> key \<notin> set (all_keys m') \<and> Suc (entries m') = entries m \<and>
        size_map m = Inr (entries m, m) \<and> size_map m' = Inr (entries m - 1, m') \<and>
        get hash key m' = Inr (None, m') \<and> contains hash key m' = Inr (False, m') \<and>
        (\<forall>key'. key' \<noteq> key \<longrightarrow>
           get_loop key' (chain hash key' m') = get_loop key' (chain hash key' m)))"
proof -
  let ?i = "hash key mod NumBuckets m"
  let ?xs = "chain hash key m"
  let ?it = "find_if (\<lambda>pair. fst pair = key) ?xs"
  let ?b = "\<lparr>mutex = free_mutex, items = erase ?it ?xs\<rparr>"
  let ?m' = "m\<lparr>buckets := (buckets m)[?i := ?b]\<rparr>"
  let ?r = "key \<in> fst ` set ?xs"
  have i: "?i < NumBuckets m" using assms(1) by simp
  have rm: "remove hash key m = Inr (?r, ?m')"
    using assms(1) quiescent_free[OF assms(2) i] by (rule remove_closed)
  have inv': "NumBuckets ?m' = NumBuckets m \<and> quiescent ?m' \<and> homed hash ?m' \<and> chains_distinct ?m'"
    using assms rm by (rule remove_invariant)
  then have n': "0 < NumBuckets ?m'" and q': "quiescent ?m'" and h': "homed hash ?m'"
    using assms(1) by simp_all
  have present: "?r \<longleftrightarrow> key \<in> set (all_keys m)"
    using all_keys_home[OF assms(3) assms(1), of key] by simp
  have d: "distinct (map fst ?xs)"
    using chains_distinct_nth[OF assms(4) i] by (simp add: chain_def)
  have ch: "chain hash key ?m' = erase ?it ?xs"
    using remove_chain(1)[OF rm, of key] by simp
  have gone: "key \<notin> fst ` set (chain hash key ?m')"
    unfolding ch using d by (rule erase_find_if_absent)
  have unchanged: "?m' = m" if "\<not> ?r"
  proof -
    from that have "?it = length ?xs" by (auto simp: find_if_end_iff)
    then have "?b = buckets m ! ?i"
      using quiescent_free[OF assms(2) i] by (simp add: erase_end chain_def)
    then show ?thesis by simp
  qed
  have removed: "key \<notin> set (all_keys ?m') \<and> Suc (entries ?m') = entries m \<and>
        size_map m = Inr (entries m, m) \<and> size_map ?m' = Inr (entries m - 1, ?m') \<and>
        get hash key ?m' = Inr (None, ?m') \<and> contains hash key ?m' = Inr (False, ?m') \<and>
        (\<forall>key'. key' \<noteq> key \<longrightarrow>
           get_loop key' (chain hash key' ?m') = get_loop key' (chain hash key' m))" if r: "?r"
  proof (intro conjI allI impI)
    show "key \<notin> set (all_keys ?m')"
      using all_keys_home[OF h' n', of key] gone by simp
    show e: "Suc (entries ?m') = entries m"
      using remove_entries[OF rm] r by simp
    show "size_map m = Inr (entries m, m)"
      using quiescent_readable[OF assms(2)] by (rule size_closed)
    have "size_map ?m' = Inr (entries ?m', ?m')"
      using quiescent_readable[OF q'] by (rule size_closed)
    moreover have "entries ?m' = entries m - 1" using e by simp
    ultimately show "size_map ?m' = Inr (entries m - 1, ?m')" by simp
    show "get hash key ?m' = Inr (None, ?m')" using n' q' gone by (rule get_absent(1))
    show "contains hash key ?m' = Inr (False, ?m')" using n' q' gone by (rule get_absent(2))
  next
    fix key' assume ne: "key' \<noteq> key"
    show "get_loop key' (chain hash key' ?m') = get_loop key' (chain hash key' m)"
    proof (cases "hash key' mod NumBuckets m = ?i")
      case True
      then have "chain hash key' m = ?xs" by (simp add: chain_def)
      with True ne show ?thesis
        by (simp add: remove_chain(1)[OF rm] get_loop_erase_other)
    next
      case False
      then show ?thesis by (simp add: remove_chain(1)[OF rm])
    qed
  qed
  show ?thesis
  proof (intro exI conjI)
    show "remove hash key m = Inr (?r, ?m')" by (rule rm)
    show "?r \<longleftrightarrow> key \<in> set (all_keys m)" by (rule present)
    show "\<not> ?r \<longrightarrow> ?m' = m \<and> size_map ?m' = size_map m" using unchanged by simp
    show "?r \<longrightarrow> key \<notin> set (all_keys ?m') \<and> Suc (entries ?m') = entries m \<and>
        size_map m = Inr (entries m, m) \<and> size_map ?m' = Inr (entries m - 1, ?m') \<and>
        get hash key ?m' = Inr (None, ?m') \<and> contains hash key ?m' = Inr (False, ?m') \<and>
        (\<forall>key'. key' \<noteq> key \<longrightarrow>
           get_loop key' (chain hash key' ?m') = get_loop key' (chain hash key' m))"
      using removed by blast
  qed
qed

text \<open>
  Witness: on the example map, key 2 is the first of two entries in bucket 0 and is
  removed; key 6 hashes to the same bucket, is not there, and the map stays as it is.
\<close>

theorem remove_reports_presence_witness:
  "0 < NumBuckets example \<and> quiescent example \<and> homed (\<lambda>k. k) example \<and> chains_distinct example \<and>
   (\<exists>m'. remove (\<lambda>k. k) 2 example = Inr (True, m') \<and> size_map m' = Inr (2, m') \<and>
         get (\<lambda>k. k) 2 m' = Inr (None, m') \<and> contains (\<lambda>k. k) 2 m' = Inr (False, m')) \<and>
   remove (\<lambda>k. k) 6 example = Inr (False, example)"
proof -
  have h: "0 < NumBuckets example" "quiescent example" "homed (\<lambda>k. k) example" "chains_distinct example"
    by code_simp+
  have p: "2 \<in> set (all_keys example)" "6 \<notin> set (all_keys example)" "entries example - 1 = 2"
    by code_simp+
  have a: "\<exists>m'. remove (\<lambda>k. k) 2 example = Inr (True, m') \<and> size_map m' = Inr (2, m') \<and>
         get (\<lambda>k. k) 2 m' = Inr (None, m') \<and> contains (\<lambda>k. k) 2 m' = Inr (False, m')"
    using remove_reports_presence[OF h, of 2] p by auto
  have b: "remove (\<lambda>k. k) 6 example = Inr (False, example)"
    using remove_reports_presence[OF h, of 6] p by auto
  from h a b show ?thesis by simp
qed

text \<open>
  Claim C3. Starting from the freshly constructed map, every sequence of calls leaves a
  map in which no key occurs twice: the list of the keys of all entries has no
  repetition, so no chain holds a key twice and no two buckets hold the same key; a key
  is found in the bucket of its index only. On a map with at least one bucket every
  sequence of calls runs to its end.
\<close>

theorem at_most_one_entry_per_key:
  fixes cs :: "('k, 'v) call list"
  shows "(\<forall>m. run hash cs (init n) = Inr m \<longrightarrow>
            distinct (all_keys m) \<and> chains_distinct m \<and> homed hash m) \<and>
         (0 < n \<longrightarrow> (\<exists>m. run hash cs (init n) = Inr m))"
proof (intro conjI allI impI)
  let ?m0 = "init n :: ('k, 'v) ConcurrentHashMap"
  have inv: "quiescent ?m0" "homed hash ?m0" "chains_distinct ?m0"
    by (rule quiescent_init, rule homed_init, rule chains_distinct_init)
  {
    fix m assume "run hash cs ?m0 = Inr m"
    from run_invariant[OF inv this] show h: "homed hash m" and d: "chains_distinct m" by simp_all
    from h d show "distinct (all_keys m)" by (rule distinct_all_keys)
  }
  {
    assume "0 < n"
    then have "0 < NumBuckets ?m0" by (simp add: NumBuckets_init)
    then show "\<exists>m. run hash cs ?m0 = Inr m" using inv by (rule run_returns)
  }
qed

text \<open>
  Witness: keys 1 and 3 share bucket 1 of two; key 1 is put twice, key 3 is removed,
  and after a \<open>clear\<close> the three entries of the example map are put.
\<close>

theorem at_most_one_entry_per_key_witness:
  "run (\<lambda>k. k) [Put 1 ''A'', Put 3 ''C'', Put 1 ''Z'', Remove 3, Put 2 ''B'', Clear, Put 1 ''A'', Put 2 ''B'', Put 4 ''D''] (init 2)
     = Inr example \<and> distinct (all_keys example)"
proof -
  have r: "run (\<lambda>k. k) [Put 1 ''A'', Put 3 ''C'', Put 1 ''Z'', Remove 3, Put 2 ''B'', Clear, Put 1 ''A'', Put 2 ''B'', Put 4 ''D''] (init 2)
     = Inr example"
    by code_simp
  with at_most_one_entry_per_key[of "\<lambda>k. k" "[Put 1 ''A'', Put 3 ''C'', Put 1 ''Z'', Remove 3, Put 2 ''B'', Clear, Put 1 ''A'', Put 2 ''B'', Put 4 ''D'']" 2]
  show ?thesis by blast
qed



text \<open>
  Claim C5. \<open>clear\<close> on a map with no lock held returns, and the map it leaves is the
  freshly constructed map with the same number of buckets: every chain is empty,
  \<open>size_map\<close> returns 0, \<open>get\<close> of every key returns empty, and the map takes
  further calls, a \<open>put\<close> followed by a \<open>get\<close> of the same key returning the
  value put.
\<close>

theorem clear_empties_the_map:
  assumes "quiescent m"
  shows "\<exists>m'. clear m = Inr m' \<and> m' = init (NumBuckets m) \<and> NumBuckets m' = NumBuckets m \<and>
     quiescent m' \<and> all_keys m' = [] \<and> size_map m' = Inr (0, m') \<and>
     (0 < NumBuckets m \<longrightarrow>
        (\<forall>key. get hash key m' = Inr (None, m') \<and> contains hash key m' = Inr (False, m')) \<and>
        (\<forall>key val. \<exists>m''. put hash key val m' = Inr m'' \<and> get hash key m'' = Inr (Some val, m'')))"
proof -
  let ?m' = "init (NumBuckets m) :: ('a, 'b) ConcurrentHashMap"
  have c: "clear m = Inr ?m'" using assms by (rule clear_closed)
  have n: "NumBuckets ?m' = NumBuckets m" by (rule NumBuckets_init)
  have q: "quiescent ?m'" by (rule quiescent_init)
  have s: "size_map ?m' = Inr (0, ?m')"
    using size_closed[OF quiescent_readable[OF q]] by (simp add: entries_init)
  have rest: "(\<forall>key. get hash key ?m' = Inr (None, ?m') \<and> contains hash key ?m' = Inr (False, ?m')) \<and>
        (\<forall>key val. \<exists>m''. put hash key val ?m' = Inr m'' \<and> get hash key m'' = Inr (Some val, m''))"
    if pos: "0 < NumBuckets m"
  proof (intro conjI allI)
    fix key :: 'a
    have pos': "0 < NumBuckets ?m'" using pos n by simp
    have a: "key \<notin> fst ` set (chain hash key ?m')" using pos by (simp add: chain_init)
    show "get hash key ?m' = Inr (None, ?m')" using pos' q a by (rule get_absent(1))
    show "contains hash key ?m' = Inr (False, ?m')" using pos' q a by (rule get_absent(2))
    fix val :: 'b
    let ?i = "hash key mod NumBuckets ?m'"
    let ?b = "\<lparr>mutex = free_mutex, items = upsert key val (chain hash key ?m')\<rparr>"
    let ?m2 = "?m'\<lparr>buckets := (buckets ?m')[?i := ?b]\<rparr>"
    have i: "?i < NumBuckets ?m'" using pos' by simp
    have p: "put hash key val ?m' = Inr ?m2"
      using pos' quiescent_free[OF q i] by (rule put_closed)
    have n2: "0 < NumBuckets ?m2" using pos' by (simp add: NumBuckets_update)
    have q2: "quiescent ?m2" using q by (simp add: quiescent_update)
    have "\<not> writer (mutex (buckets ?m2 ! (hash key mod NumBuckets ?m2)))"
      using quiescent_free[OF q2, of "hash key mod NumBuckets ?m2"] n2 by (simp add: free_mutex_def)
    with n2 have "get hash key ?m2 = Inr (get_loop key (chain hash key ?m2), ?m2)"
      by (rule get_closed)
    moreover have "chain hash key ?m2 = upsert key val (chain hash key ?m')"
      using put_chain[OF p, of key] by (simp add: NumBuckets_init)
    ultimately have "get hash key ?m2 = Inr (Some val, ?m2)"
      by (simp add: get_loop_upsert_same)
    with p show "\<exists>m''. put hash key val ?m' = Inr m'' \<and> get hash key m'' = Inr (Some val, m'')"
      by blast
  qed
  show ?thesis using c n q s rest by (simp add: all_keys_init)
qed

text \<open>Witness: clearing the example map.\<close>

theorem clear_empties_the_map_witness:
  "quiescent example \<and> clear example = Inr (init 2) \<and> size_map (init 2 :: (nat, string) ConcurrentHashMap) = Inr (0, init 2) \<and>
   get (\<lambda>k. k) 4 (init 2 :: (nat, string) ConcurrentHashMap) = Inr (None, init 2)"
proof -
  have q: "quiescent example" by code_simp
  have n: "NumBuckets example = 2" by code_simp
  from clear_empties_the_map[OF q, of "\<lambda>k. k"] n q show ?thesis by auto
qed

text \<open>
  Claim C6. \<^verbatim>\<open>contains(k)\<close> is \<^verbatim>\<open>get(k).has_value()\<close>: where
  \<open>get\<close> does not return, \<open>contains\<close> does not return for the same reason; where
  \<open>get\<close> returns a result, \<open>contains\<close> returns whether that result holds a value,
  and leaves the same map. On a map with at least one bucket and no lock held, both return.
\<close>

theorem contains_is_get_has_value:
  "(\<forall>e. get hash key m = Inl e \<longrightarrow> contains hash key m = Inl e) \<and>
   (\<forall>r m'. get hash key m = Inr (r, m') \<longrightarrow> contains hash key m = Inr (r \<noteq> None, m')) \<and>
   (0 < NumBuckets m \<and> quiescent m \<longrightarrow>
      (\<exists>r. get hash key m = Inr (r, m) \<and> contains hash key m = Inr (r \<noteq> None, m)))"
proof (intro conjI allI impI)
  fix e assume "get hash key m = Inl e"
  then show "contains hash key m = Inl e" by (simp add: contains_def)
next
  fix r m' assume "get hash key m = Inr (r, m')"
  then show "contains hash key m = Inr (r \<noteq> None, m')" by (simp add: contains_def has_value_iff)
next
  assume a: "0 < NumBuckets m \<and> quiescent m"
  then have "\<not> writer (mutex (buckets m ! (hash key mod NumBuckets m)))"
    using quiescent_free[of m "hash key mod NumBuckets m"] by (simp add: free_mutex_def)
  with a have "get hash key m = Inr (get_loop key (chain hash key m), m)"
    by (simp add: get_closed)
  then show "\<exists>r. get hash key m = Inr (r, m) \<and> contains hash key m = Inr (r \<noteq> None, m)"
    by (simp add: contains_def has_value_iff)
qed

text \<open>Witness: key 4 of the example map.\<close>

theorem contains_is_get_has_value_witness:
  "0 < NumBuckets example \<and> quiescent example \<and>
   (\<exists>r. get (\<lambda>k. k) 4 example = Inr (r, example) \<and> contains (\<lambda>k. k) 4 example = Inr (r \<noteq> None, example))"
proof -
  have h: "0 < NumBuckets example" "quiescent example" by code_simp+
  from contains_is_get_has_value[of "\<lambda>k. k" 4 example] h show ?thesis by simp
qed

text \<open>
  Claim C7. A key that was never inserted is not found: after any sequence of calls on a
  freshly constructed map with at least one bucket, none of them a \<open>put\<close> of the
  key, \<open>get\<close> of the key returns empty and \<open>contains\<close> returns false. The
  empty sequence is the freshly constructed map itself.
\<close>

theorem never_inserted_is_absent:
  fixes cs :: "('k, 'v) call list"
  assumes "0 < n" and "\<forall>val. Put key val \<notin> set cs"
  shows "\<exists>m. run hash cs (init n) = Inr m \<and> get hash key m = Inr (None, m)
           \<and> contains hash key m = Inr (False, m)"
proof -
  let ?m0 = "init n :: ('k, 'v) ConcurrentHashMap"
  have inv: "quiescent ?m0" "homed hash ?m0" "chains_distinct ?m0"
    by (rule quiescent_init, rule homed_init, rule chains_distinct_init)
  have pos: "0 < NumBuckets ?m0" using assms(1) by (simp add: NumBuckets_init)
  from run_returns[OF pos inv] obtain m where r: "run hash cs ?m0 = Inr m" by blast
  have "key \<notin> fst ` set (chain hash key ?m0)"
    using assms(1) by (simp add: chain_init)
  then have a: "key \<notin> fst ` set (chain hash key m)"
    using assms(2) inv r by (rule run_keeps_absent)
  from run_invariant[OF inv r] pos have "0 < NumBuckets m" "quiescent m" by simp_all
  then show ?thesis using r get_absent[OF _ _ a] by simp
qed

text \<open>
  Witness: four buckets, the identity as hash function, and key 5, which shares bucket 1
  with the inserted key 1.
\<close>

theorem never_inserted_is_absent_witness:
  "0 < (4::nat) \<and> (\<forall>val. Put (5::nat) val \<notin> set [Put 1 ''Alice'', Put 2 ''Bob'', Remove 2, Size])
   \<and> (\<exists>m. run (\<lambda>k. k) [Put 1 ''Alice'', Put 2 ''Bob'', Remove 2, Size] (init 4) = Inr m
          \<and> get (\<lambda>k. k) 5 m = Inr (None, m) \<and> contains (\<lambda>k. k) 5 m = Inr (False, m))"
  using never_inserted_is_absent[of 4 5 "[Put 1 ''Alice'', Put 2 ''Bob'', Remove 2, Size]" "\<lambda>k. k"]
  by simp

text \<open>
  Claim C8. The bucket index of a key is \<open>hash key mod NumBuckets\<close>, a function of the
  key and the bucket count alone, and a single-key call touches that bucket only:
  whenever \<open>put\<close>, \<open>remove\<close>, \<open>get\<close> or \<open>contains\<close> returns, the map has as
  many buckets as before and every bucket at another index is as it was, chain and lock.
  On a map with at least one bucket and no lock held, \<open>put\<close> and \<open>remove\<close> do
  return.
\<close>

theorem single_key_calls_touch_one_bucket:
  "(0 < NumBuckets m \<longrightarrow>
      getBucketIndex hash m key = Inr (hash key mod NumBuckets m) \<and>
      hash key mod NumBuckets m < NumBuckets m) \<and>
   (\<forall>m'. put hash key val m = Inr m' \<longrightarrow> NumBuckets m' = NumBuckets m \<and>
      (\<forall>j. j \<noteq> hash key mod NumBuckets m \<longrightarrow> buckets m' ! j = buckets m ! j)) \<and>
   (\<forall>r m'. remove hash key m = Inr (r, m') \<longrightarrow> NumBuckets m' = NumBuckets m \<and>
      (\<forall>j. j \<noteq> hash key mod NumBuckets m \<longrightarrow> buckets m' ! j = buckets m ! j)) \<and>
   (\<forall>r m'. get hash key m = Inr (r, m') \<longrightarrow> NumBuckets m' = NumBuckets m \<and>
      (\<forall>j. j \<noteq> hash key mod NumBuckets m \<longrightarrow> buckets m' ! j = buckets m ! j)) \<and>
   (\<forall>r m'. contains hash key m = Inr (r, m') \<longrightarrow> NumBuckets m' = NumBuckets m \<and>
      (\<forall>j. j \<noteq> hash key mod NumBuckets m \<longrightarrow> buckets m' ! j = buckets m ! j)) \<and>
   (0 < NumBuckets m \<and> quiescent m \<longrightarrow>
      (\<exists>m'. put hash key val m = Inr m') \<and> (\<exists>r m'. remove hash key m = Inr (r, m')))"
proof (intro conjI allI impI)
  assume "0 < NumBuckets m"
  then show "getBucketIndex hash m key = Inr (hash key mod NumBuckets m)"
    by (simp add: getBucketIndex_def)
next
  assume "0 < NumBuckets m"
  then show "hash key mod NumBuckets m < NumBuckets m" by simp
next
  fix m' assume "put hash key val m = Inr m'"
  then show "NumBuckets m' = NumBuckets m" by (rule put_frame(1))
next
  fix m' j assume "put hash key val m = Inr m'" "j \<noteq> hash key mod NumBuckets m"
  then show "buckets m' ! j = buckets m ! j" by (rule put_frame(2))
next
  fix r m' assume "remove hash key m = Inr (r, m')"
  then show "NumBuckets m' = NumBuckets m" by (rule remove_frame(1))
next
  fix r m' j assume "remove hash key m = Inr (r, m')" "j \<noteq> hash key mod NumBuckets m"
  then show "buckets m' ! j = buckets m ! j" by (rule remove_frame(2))
next
  fix r m' assume "get hash key m = Inr (r, m')"
  then have "m' = m" by (rule get_Inr_state)
  then show "NumBuckets m' = NumBuckets m" by simp
next
  fix r m' j assume "get hash key m = Inr (r, m')"
  then have "m' = m" by (rule get_Inr_state)
  then show "buckets m' ! j = buckets m ! j" by simp
next
  fix r m' assume "contains hash key m = Inr (r, m')"
  then have "\<exists>r'. get hash key m = Inr (r', m') \<and> r = has_value r'" by (rule contains_Inr)
  then obtain r' where "get hash key m = Inr (r', m')" by auto
  then have "m' = m" by (rule get_Inr_state)
  then show "NumBuckets m' = NumBuckets m" by simp
next
  fix r m' j assume "contains hash key m = Inr (r, m')"
  then have "\<exists>r'. get hash key m = Inr (r', m') \<and> r = has_value r'" by (rule contains_Inr)
  then obtain r' where "get hash key m = Inr (r', m')" by auto
  then have "m' = m" by (rule get_Inr_state)
  then show "buckets m' ! j = buckets m ! j" by simp
next
  assume a: "0 < NumBuckets m \<and> quiescent m"
  then have "mutex (buckets m ! (hash key mod NumBuckets m)) = free_mutex"
    using quiescent_free[of m "hash key mod NumBuckets m"] by simp
  with a show "\<exists>m'. put hash key val m = Inr m'" by (simp add: put_closed)
next
  assume a: "0 < NumBuckets m \<and> quiescent m"
  then have "mutex (buckets m ! (hash key mod NumBuckets m)) = free_mutex"
    using quiescent_free[of m "hash key mod NumBuckets m"] by simp
  with a show "\<exists>r m'. remove hash key m = Inr (r, m')" by (simp add: remove_closed)
qed

text \<open>
  Witness: on the example map, \<open>put\<close> of key 3 and \<open>remove\<close> of key 1 work on
  bucket 1 and leave bucket 0 as it is.
\<close>

theorem single_key_calls_touch_one_bucket_witness:
  "getBucketIndex (\<lambda>k. k) example 3 = Inr 1 \<and>
   (\<exists>m'. put (\<lambda>k. k) 3 ''C'' example = Inr m' \<and> NumBuckets m' = 2 \<and> buckets m' ! 0 = buckets example ! 0) \<and>
   (\<exists>m'. remove (\<lambda>k. k) 1 example = Inr (True, m') \<and> NumBuckets m' = 2 \<and> buckets m' ! 0 = buckets example ! 0)"
proof -
  have n: "NumBuckets example = 2" by code_simp
  have q: "quiescent example" by code_simp
  have r: "remove (\<lambda>k. k) 1 example =
      Inr (True, \<lparr>buckets = [\<lparr>mutex = free_mutex, items = [(2, ''B''), (4, ''D'')]\<rparr>,
                               \<lparr>mutex = free_mutex, items = []\<rparr>]\<rparr>)"
    by code_simp
  from single_key_calls_touch_one_bucket[of example "\<lambda>k. k" 3 "''C''"] n q
  have p: "getBucketIndex (\<lambda>k. k) example 3 = Inr 1 \<and>
    (\<exists>m'. put (\<lambda>k. k) 3 ''C'' example = Inr m' \<and> NumBuckets m' = 2 \<and> buckets m' ! 0 = buckets example ! 0)"
    by auto
  from single_key_calls_touch_one_bucket[of example "\<lambda>k. k" 1 "''C''"] n r
  have "\<exists>m'. remove (\<lambda>k. k) 1 example = Inr (True, m') \<and> NumBuckets m' = 2 \<and> buckets m' ! 0 = buckets example ! 0"
    by auto
  with p show ?thesis by simp
qed

text \<open>
  Claim C9. \<open>get\<close>, \<open>contains\<close> and \<open>size_map\<close> are read-only: whenever
  one of them returns, the map it leaves is the map it was given, every chain and every
  lock included. What \<open>get\<close> returns is the value that the scan of the key's chain
  finds, of type \<open>'v option\<close>: a value, not a place in the chain, so nothing done to
  the map afterwards changes it. The three queries do return whenever no bucket is
  locked exclusively (\<open>get\<close> and \<open>contains\<close> on a map with at least one bucket).
\<close>

theorem queries_read_only:
  "(\<forall>r m'. get hash key m = Inr (r, m') \<longrightarrow> m' = m \<and> r = get_loop key (chain hash key m)) \<and>
   (\<forall>r m'. contains hash key m = Inr (r, m') \<longrightarrow> m' = m) \<and>
   (\<forall>n m'. size_map m = Inr (n, m') \<longrightarrow> m' = m) \<and>
   ((\<forall>b \<in> set (buckets m). \<not> writer (mutex b)) \<longrightarrow>
      (\<exists>n. size_map m = Inr (n, m)) \<and>
      (0 < NumBuckets m \<longrightarrow> (\<exists>r. get hash key m = Inr (r, m)) \<and> (\<exists>r. contains hash key m = Inr (r, m))))"
proof (intro conjI allI impI)
  fix r m' assume g: "get hash key m = Inr (r, m')"
  show "m' = m" using g by (rule get_Inr_state)
  show "r = get_loop key (chain hash key m)" using g by (rule get_Inr_result)
next
  fix r m' assume "contains hash key m = Inr (r, m')"
  then have "\<exists>r'. get hash key m = Inr (r', m') \<and> r = has_value r'" by (rule contains_Inr)
  then obtain r' where "get hash key m = Inr (r', m')" by auto
  then show "m' = m" by (rule get_Inr_state)
next
  fix n m' assume "size_map m = Inr (n, m')"
  then show "m' = m" by (rule size_Inr_state)
next
  assume "\<forall>b \<in> set (buckets m). \<not> writer (mutex b)"
  then show "\<exists>n. size_map m = Inr (n, m)" by (simp add: size_closed)
next
  assume r: "\<forall>b \<in> set (buckets m). \<not> writer (mutex b)" and n: "0 < NumBuckets m"
  then have w: "\<not> writer (mutex (buckets m ! (hash key mod NumBuckets m)))"
    by (simp add: NumBuckets_def)
  show "\<exists>r. get hash key m = Inr (r, m)" using n w by (simp add: get_closed)
  show "\<exists>r. contains hash key m = Inr (r, m)" using n w by (simp add: contains_closed)
qed

text \<open>Witness: the three queries on the example map.\<close>

theorem queries_read_only_witness:
  "get (\<lambda>k. k) 4 example = Inr (Some ''D'', example) \<and>
   contains (\<lambda>k. k) 4 example = Inr (True, example) \<and>
   size_map example = Inr (3, example)"
proof -
  have free: "\<forall>b \<in> set (buckets example). \<not> writer (mutex b)" by code_simp
  have n: "0 < NumBuckets example" by code_simp
  have scan: "get_loop 4 (chain (\<lambda>k. k) 4 example) = Some ''D''" by code_simp
  have e: "entries example = 3" by code_simp
  from queries_read_only[of "\<lambda>k. k" 4 example] free n
  obtain r b k where g: "get (\<lambda>k. k) 4 example = Inr (r, example)"
    and c: "contains (\<lambda>k. k) 4 example = Inr (b, example)"
    and s: "size_map example = Inr (k, example)"
    by blast
  from queries_read_only[of "\<lambda>k. k" 4 example] g scan
  have g': "get (\<lambda>k. k) 4 example = Inr (Some ''D'', example)" by simp
  then have c': "contains (\<lambda>k. k) 4 example = Inr (True, example)"
    by (simp add: contains_def has_value_def)
  have "k = entries example" using size_Inr[OF s] by (rule conjunct2)
  with s e have s': "size_map example = Inr (3, example)" by simp
  from g' c' s' show ?thesis by simp
qed

end
